theory Spec2Isabelle
  imports Complex_Main "HOL-Library.Sublist"
begin

section \<open>Data model of \<open>interactive_planner.js\<close>\<close>

text \<open>
  A graph is the object \<open>{ nodes, edges }\<close> built by \<open>generateSampleGraph\<close>: \<open>nodes\<close> is an
  array indexed by node id, every edge is \<open>{ from, to, weight }\<close>. JavaScript numbers are
  modelled as real numbers; node ids are array indices (natural numbers), and an id that
  is not an index of \<open>nodes\<close> reads as \<open>undefined\<close>.
\<close>

record node =
  node_id :: nat
  node_x :: real
  node_y :: real
  zone :: string
  label :: string

record edge =
  edge_from :: nat
  edge_to :: nat
  weight :: real

record graph =
  nodes :: "node list"
  edges :: "edge list"

text \<open>
  \<open>TypeError\<close> is what JavaScript throws when a property of \<open>undefined\<close> is read
  (\<open>nodes[i]\<close> out of range, \<open>edges.find\<close> without a match). \<open>NaNScore\<close> marks arithmetic on
  a score that is missing from \<open>gScore\<close>, which JavaScript would carry on as \<open>NaN\<close>; lemma
  \<open>astar_no_NaNScore\<close> shows that no run of \<open>astar\<close> gets there.
\<close>

datatype error = TypeError | NaNScore

text \<open>\<open>astar\<close> returns an array of node ids or \<open>null\<close>.\<close>

type_synonym outcome = "error + nat list option"

abbreviation Unreachable :: outcome where
  "Unreachable \<equiv> Inr None"

abbreviation Path :: "nat list \<Rightarrow> outcome" where
  "Path p \<equiv> Inr (Some p)"

subsection \<open>JavaScript \<open>Set\<close>: insertion-ordered, without duplicates\<close>

definition set_add :: "nat \<Rightarrow> nat list \<Rightarrow> nat list" where
  "set_add v s = (if v \<in> set s then s else s @ [v])"

definition set_delete :: "nat \<Rightarrow> nat list \<Rightarrow> nat list" where
  "set_delete v s = removeAll v s"

definition new_Set :: "nat list \<Rightarrow> nat list" where
  "new_Set vs = foldl (\<lambda>s v. set_add v s) [] vs"

subsection \<open>\<open>heuristic\<close> and node lookup\<close>

definition heuristic :: "node \<Rightarrow> node \<Rightarrow> real" where
  "heuristic a b =
     (let dx = node_x a - node_x b; dy = node_y a - node_y b
      in sqrt (dx * dx + dy * dy))"

definition node_at :: "node list \<Rightarrow> nat \<Rightarrow> node option" where
  "node_at ns i = (if i < length ns then Some (ns ! i) else None)"

text \<open>\<open>heuristic(nodes[a], nodes[b])\<close>: reading \<open>.x\<close> of \<open>undefined\<close> throws.\<close>

definition heuristic_at :: "node list \<Rightarrow> nat \<Rightarrow> nat \<Rightarrow> error + real" where
  "heuristic_at ns a b =
     (case node_at ns a of
        None \<Rightarrow> Inl TypeError
      | Some na \<Rightarrow>
          (case node_at ns b of
             None \<Rightarrow> Inl TypeError
           | Some nb \<Rightarrow> Inr (heuristic na nb)))"

subsection \<open>\<open>reconstructPath\<close>\<close>

partial_function (option) reconstruct_loop ::
  "(nat \<rightharpoonup> nat) \<Rightarrow> nat \<Rightarrow> nat list \<Rightarrow> nat list option" where
  "reconstruct_loop cf current path =
     (case cf current of
        None \<Rightarrow> Some path
      | Some p \<Rightarrow> reconstruct_loop cf p (p # path))"

definition reconstructPath :: "(nat \<rightharpoonup> nat) \<Rightarrow> nat \<Rightarrow> nat list option" where
  "reconstructPath cf current = reconstruct_loop cf current [current]"

subsection \<open>\<open>astar\<close>\<close>

record astar_state =
  openSet :: "nat list"
  cameFrom :: "nat \<rightharpoonup> nat"
  gScore :: "nat \<rightharpoonup> real"
  fScore :: "nat \<rightharpoonup> real"

text \<open>
  \<open>fScore.get(a) < fScore.get(b)\<close>: a missing score is \<open>undefined\<close>, and every comparison
  with \<open>undefined\<close> is false.
\<close>

definition score_lt :: "(nat \<rightharpoonup> real) \<Rightarrow> nat \<Rightarrow> nat \<Rightarrow> bool" where
  "score_lt fs a b =
     (case fs a of
        None \<Rightarrow> False
      | Some u \<Rightarrow> (case fs b of None \<Rightarrow> False | Some v \<Rightarrow> u < v))"

text \<open>\<open>Array.from(openSet).reduce((a, b) => fScore.get(a) < fScore.get(b) ? a : b)\<close>\<close>

definition select_current :: "(nat \<rightharpoonup> real) \<Rightarrow> nat \<Rightarrow> nat list \<Rightarrow> nat" where
  "select_current fs v vs = foldl (\<lambda>a b. if score_lt fs a b then a else b) v vs"

definition neighbors :: "edge list \<Rightarrow> nat \<Rightarrow> nat list" where
  "neighbors es current =
     map (\<lambda>e. if edge_from e = current then edge_to e else edge_from e)
       (filter (\<lambda>e. edge_from e = current \<or> edge_to e = current) es)"

definition find_edge :: "edge list \<Rightarrow> nat \<Rightarrow> nat \<Rightarrow> edge option" where
  "find_edge es current neighbor =
     List.find (\<lambda>e. (edge_from e = current \<and> edge_to e = neighbor) \<or>
                    (edge_to e = current \<and> edge_from e = neighbor)) es"

text \<open>The body of \<open>for (const neighbor of neighbors)\<close>, for one neighbor.\<close>

definition relax_one :: "graph \<Rightarrow> nat \<Rightarrow> nat \<Rightarrow> nat \<Rightarrow> astar_state \<Rightarrow> error + astar_state" where
  "relax_one G goal current neighbor st =
     (case find_edge (edges G) current neighbor of
        None \<Rightarrow> Inl TypeError
      | Some e \<Rightarrow>
          (case gScore st current of
             None \<Rightarrow> Inl NaNScore
           | Some gc \<Rightarrow>
               (let tentativeG = gc + weight e in
                if (case gScore st neighbor of None \<Rightarrow> True | Some gn \<Rightarrow> tentativeG < gn)
                then
                  (case heuristic_at (nodes G) neighbor goal of
                     Inl err \<Rightarrow> Inl err
                   | Inr h \<Rightarrow>
                       Inr (st\<lparr>cameFrom := (cameFrom st)(neighbor \<mapsto> current),
                               gScore := (gScore st)(neighbor \<mapsto> tentativeG),
                               fScore := (fScore st)(neighbor \<mapsto> tentativeG + h),
                               openSet := set_add neighbor (openSet st)\<rparr>))
                else Inr st)))"

fun relax :: "graph \<Rightarrow> nat \<Rightarrow> nat \<Rightarrow> nat list \<Rightarrow> astar_state \<Rightarrow> error + astar_state" where
  "relax G goal current [] st = Inr st"
| "relax G goal current (neighbor # rest) st =
     (case relax_one G goal current neighbor st of
        Inl err \<Rightarrow> Inl err
      | Inr st' \<Rightarrow> relax G goal current rest st')"

text \<open>The \<open>while (openSet.size > 0)\<close> loop; \<open>None\<close> stands for a loop that never returns.\<close>

partial_function (option) astar_loop ::
  "graph \<Rightarrow> nat \<Rightarrow> astar_state \<Rightarrow> outcome option" where
  "astar_loop G goal st =
     (case openSet st of
        [] \<Rightarrow> Some Unreachable
      | v # vs \<Rightarrow>
          (let current = select_current (fScore st) v vs in
           if current = goal
           then map_option Path (reconstructPath (cameFrom st) current)
           else
             (case relax G goal current (neighbors (edges G) current)
                     (st\<lparr>openSet := set_delete current (openSet st)\<rparr>) of
                Inl err \<Rightarrow> Some (Inl err)
              | Inr st' \<Rightarrow> astar_loop G goal st')))"

definition astar_init :: "nat \<Rightarrow> real \<Rightarrow> astar_state" where
  "astar_init start h =
     \<lparr>openSet = [start], cameFrom = Map.empty, gScore = [start \<mapsto> 0], fScore = [start \<mapsto> h]\<rparr>"

definition astar :: "graph \<Rightarrow> nat \<Rightarrow> nat \<Rightarrow> outcome option" where
  "astar G start goal =
     (case heuristic_at (nodes G) start goal of
        Inl err \<Rightarrow> Some (Inl err)
      | Inr h \<Rightarrow> astar_loop G goal (astar_init start h))"

subsection \<open>\<open>calculatePathDistance\<close>\<close>

fun calculatePathDistance_loop :: "node list \<Rightarrow> nat list \<Rightarrow> real \<Rightarrow> error + real" where
  "calculatePathDistance_loop ns (a # b # rest) dst =
     (case heuristic_at ns a b of
        Inl err \<Rightarrow> Inl err
      | Inr h \<Rightarrow> calculatePathDistance_loop ns (b # rest) (dst + h))"
| "calculatePathDistance_loop ns path dst = Inr dst"

definition calculatePathDistance :: "node list \<Rightarrow> nat list \<Rightarrow> error + real" where
  "calculatePathDistance ns path = calculatePathDistance_loop ns path 0"

text \<open>
  \<open>PathPlannerDemo\<close> shows this distance as \<open>dist.toFixed(1)\<close> and an estimated time
  \<open>(pathDistance / 50).toFixed(1)\<close>. Both are decimal renderings of doubles; they are not
  part of this model, which has real numbers for JavaScript numbers.
\<close>

subsection \<open>\<open>calculatePath\<close>\<close>

text \<open>
  \<open>bestGoal\<close>, \<open>bestPath\<close> and \<open>bestDist\<close> are assigned together; \<open>None\<close> is their
  initial value \<open>(null, null, Infinity)\<close>.
\<close>

type_synonym best = "(nat \<times> nat list \<times> real) option"

fun best_goal_loop :: "graph \<Rightarrow> nat \<Rightarrow> nat list \<Rightarrow> best \<Rightarrow> (error + best) option" where
  "best_goal_loop G current [] best = Some (Inr best)"
| "best_goal_loop G current (goal # rest) best =
     (case astar G current goal of
        None \<Rightarrow> None
      | Some (Inl err) \<Rightarrow> Some (Inl err)
      | Some (Inr None) \<Rightarrow> best_goal_loop G current rest best
      | Some (Inr (Some path)) \<Rightarrow>
          (case calculatePathDistance (nodes G) path of
             Inl err \<Rightarrow> Some (Inl err)
           | Inr dst \<Rightarrow>
               if (case best of None \<Rightarrow> True | Some (bestGoal, bestPath, bestDist) \<Rightarrow> dst < bestDist)
               then best_goal_loop G current rest (Some (goal, path, dst))
               else best_goal_loop G current rest best))"

record multi_state =
  current_node :: nat
  remaining :: "nat list"
  fullPath :: "nat list"

text \<open>
  The \<open>while (remaining.size > 0)\<close> loop. \<open>if (!bestGoal) break\<close> leaves the loop when no
  goal was selected and also when the selected goal is node \<open>0\<close>, since \<open>!0\<close> is true.
\<close>

partial_function (option) multi_loop :: "graph \<Rightarrow> multi_state \<Rightarrow> (error + multi_state) option" where
  "multi_loop G st =
     (if remaining st = [] then Some (Inr st)
      else
        (case best_goal_loop G (current_node st) (remaining st) None of
           None \<Rightarrow> None
         | Some (Inl err) \<Rightarrow> Some (Inl err)
         | Some (Inr None) \<Rightarrow> Some (Inr st)
         | Some (Inr (Some (bestGoal, bestPath, bestDist))) \<Rightarrow>
             if bestGoal = 0 then Some (Inr st)
             else multi_loop G
                    \<lparr>current_node = bestGoal,
                     remaining = set_delete bestGoal (remaining st),
                     fullPath = fullPath st @ tl bestPath\<rparr>))"

definition multi_init :: "nat \<Rightarrow> nat list \<Rightarrow> multi_state" where
  "multi_init startNode multiGoals =
     \<lparr>current_node = startNode, remaining = new_Set multiGoals, fullPath = [startNode]\<rparr>"

text \<open>\<open>calculatePath\<close> in mode \<open>'multi'\<close>: the value passed to \<open>setCurrentPath\<close>.\<close>

definition calculatePath_multi :: "graph \<Rightarrow> nat \<Rightarrow> nat list \<Rightarrow> (error + nat list) option" where
  "calculatePath_multi G startNode multiGoals =
     (case multi_loop G (multi_init startNode multiGoals) of
        None \<Rightarrow> None
      | Some (Inl err) \<Rightarrow> Some (Inl err)
      | Some (Inr st) \<Rightarrow> Some (Inr (fullPath st)))"

text \<open>\<open>calculatePath\<close> in mode \<open>'single'\<close>: \<open>setCurrentPath(path || [])\<close>.\<close>

definition calculatePath_single :: "graph \<Rightarrow> nat \<Rightarrow> nat \<Rightarrow> (error + nat list) option" where
  "calculatePath_single G startNode goalNode =
     (case astar G startNode goalNode of
        None \<Rightarrow> None
      | Some (Inl err) \<Rightarrow> Some (Inl err)
      | Some (Inr None) \<Rightarrow> Some (Inr [])
      | Some (Inr (Some path)) \<Rightarrow> Some (Inr path))"

section \<open>Notions the properties are stated with\<close>

text \<open>Two nodes are joined when some edge has them as its endpoints, in either order.\<close>

definition joined :: "edge list \<Rightarrow> nat \<Rightarrow> nat \<Rightarrow> bool" where
  "joined es a b \<longleftrightarrow>
     (\<exists>e \<in> set es. (edge_from e = a \<and> edge_to e = b) \<or> (edge_to e = a \<and> edge_from e = b))"

definition directed_edge :: "edge list \<Rightarrow> nat \<Rightarrow> nat \<Rightarrow> bool" where
  "directed_edge es a b \<longleftrightarrow> (\<exists>e \<in> set es. edge_from e = a \<and> edge_to e = b)"

fun walk :: "edge list \<Rightarrow> nat list \<Rightarrow> bool" where
  "walk es (a # b # rest) \<longleftrightarrow> joined es a b \<and> walk es (b # rest)"
| "walk es path \<longleftrightarrow> True"

definition is_path :: "graph \<Rightarrow> nat \<Rightarrow> nat \<Rightarrow> nat list \<Rightarrow> bool" where
  "is_path G start goal path \<longleftrightarrow>
     path \<noteq> [] \<and> hd path = start \<and> last path = goal \<and> walk (edges G) path"

text \<open>
  The weight the planner reads for a step between two nodes: that of the first edge of
  the edge list that joins them (\<open>edges.find\<close>).
\<close>

definition step_weight :: "edge list \<Rightarrow> nat \<Rightarrow> nat \<Rightarrow> real" where
  "step_weight es a b = (case find_edge es a b of None \<Rightarrow> 0 | Some e \<Rightarrow> weight e)"

text \<open>
  The edges traversed along a path: one edge of the graph for every step of the path,
  joining the two nodes of the step in either order. Their cost is the sum of their weights.
\<close>

fun traverses :: "edge list \<Rightarrow> nat list \<Rightarrow> edge list \<Rightarrow> bool" where
  "traverses es (a # b # rest) (e # tr) \<longleftrightarrow>
     e \<in> set es
     \<and> ((edge_from e = a \<and> edge_to e = b) \<or> (edge_to e = a \<and> edge_from e = b))
     \<and> traverses es (b # rest) tr"
| "traverses es (a # b # rest) [] \<longleftrightarrow> False"
| "traverses es path tr \<longleftrightarrow> tr = []"

definition edges_cost :: "edge list \<Rightarrow> real" where
  "edges_cost tr = sum_list (map weight tr)"

text \<open>All the edges of the graph that join two given nodes, in either order.\<close>

definition edges_between :: "edge list \<Rightarrow> nat \<Rightarrow> nat \<Rightarrow> edge list" where
  "edges_between es a b =
     filter (\<lambda>e. (edge_from e = a \<and> edge_to e = b) \<or> (edge_to e = a \<and> edge_from e = b)) es"

text \<open>Every edge ends in nodes of the graph.\<close>

definition endpoints_exist :: "graph \<Rightarrow> bool" where
  "endpoints_exist G \<longleftrightarrow>
     (\<forall>e \<in> set (edges G). edge_from e < length (nodes G) \<and> edge_to e < length (nodes G))"

definition weights_nonneg :: "graph \<Rightarrow> bool" where
  "weights_nonneg G \<longleftrightarrow> (\<forall>e \<in> set (edges G). 0 \<le> weight e)"

section \<open>Example graphs\<close>

definition mk_node :: "nat \<Rightarrow> real \<Rightarrow> real \<Rightarrow> node" where
  "mk_node i px py = \<lparr>node_id = i, node_x = px, node_y = py, zone = ''lobby'', label = ''N''\<rparr>"

definition mk_edge :: "nat \<Rightarrow> nat \<Rightarrow> real \<Rightarrow> edge" where
  "mk_edge a b w = \<lparr>edge_from = a, edge_to = b, weight = w\<rparr>"

text \<open>One edge, from node 0 to node 1.\<close>

definition one_way :: graph where
  "one_way = \<lparr>nodes = [mk_node 0 0 0, mk_node 1 3 0], edges = [mk_edge 0 1 7]\<rparr>"

text \<open>Two nodes, no edge.\<close>

definition apart :: graph where
  "apart = \<lparr>nodes = [mk_node 0 0 0, mk_node 1 3 0], edges = []\<rparr>"

text \<open>A direct edge of weight 10 and a detour of total weight 2 through a far node.\<close>

definition detour :: graph where
  "detour =
     \<lparr>nodes = [mk_node 0 0 0, mk_node 1 100 0, mk_node 2 10 0],
      edges = [mk_edge 0 2 10, mk_edge 0 1 1, mk_edge 1 2 1]\<rparr>"

text \<open>Nodes 1 and 2 reach the frontier with the same estimated total cost 5.\<close>

definition tie :: graph where
  "tie =
     \<lparr>nodes = [mk_node 0 10 0, mk_node 1 4 0, mk_node 2 2 0, mk_node 3 0 0],
      edges = [mk_edge 0 1 1, mk_edge 0 2 3, mk_edge 1 3 1, mk_edge 2 3 2]\<rparr>"


text \<open>
  The three-node scenario: A(0,0), B(10,0), C(10,10) as nodes 0, 1, 2, with edges A-B of
  cost 10, B-C of cost 10 and A-C of cost 25.
\<close>

definition scenario :: graph where
  "scenario =
     \<lparr>nodes = [mk_node 0 0 0, mk_node 1 10 0, mk_node 2 10 10],
      edges = [mk_edge 0 1 10, mk_edge 1 2 10, mk_edge 0 2 25]\<rparr>"

definition tie_frontier :: astar_state where
  "tie_frontier =
     \<lparr>openSet = [1, 2], cameFrom = [1 \<mapsto> 0, 2 \<mapsto> 0],
      gScore = [0 \<mapsto> 0, 1 \<mapsto> 1, 2 \<mapsto> 3], fScore = [0 \<mapsto> 10, 1 \<mapsto> 5, 2 \<mapsto> 5]\<rparr>"

section \<open>Cost model and penalties\<close>













section \<open>Invariants of the search\<close>

text \<open>
  What holds of the state at every turn of the search loop, whatever the weights: scored
  nodes include the frontier and the start, every \<open>cameFrom\<close> link runs along an edge
  between scored nodes, and every scored node but the start has such a link.
\<close>

definition inv_struct :: "graph \<Rightarrow> nat \<Rightarrow> astar_state \<Rightarrow> bool" where
  "inv_struct G start st \<longleftrightarrow>
     set (openSet st) \<subseteq> dom (gScore st)
     \<and> start \<in> dom (gScore st)
     \<and> (\<forall>n p. cameFrom st n = Some p \<longrightarrow>
            joined (edges G) p n \<and> p \<in> dom (gScore st) \<and> n \<in> dom (gScore st))
     \<and> (\<forall>n \<in> dom (gScore st). n = start \<or> cameFrom st n \<noteq> None)"

text \<open>What \<open>reconstruct_loop\<close> returns when every link runs along an edge.\<close>

definition shape :: "edge list \<Rightarrow> (nat \<rightharpoonup> nat) \<Rightarrow> nat \<Rightarrow> nat list \<Rightarrow> nat list \<Rightarrow> bool" where
  "shape es cf c path r \<longleftrightarrow>
     ((\<forall>n p. cf n = Some p \<longrightarrow> joined es p n) \<longrightarrow>
     (\<forall>rest. path = c # rest \<and> walk es path \<longrightarrow>
        (\<exists>q. r = q @ c # rest \<and> cf (hd r) = None \<and> walk es r
              \<and> (hd r = c \<or> (\<exists>n. cf n = Some (hd r))))))"

definition struct_post :: "nat \<Rightarrow> graph \<Rightarrow> nat \<Rightarrow> astar_state \<Rightarrow> outcome \<Rightarrow> bool" where
  "struct_post start G goal st r \<longleftrightarrow>
     (inv_struct G start st \<longrightarrow>
        r \<noteq> Inl NaNScore \<and> (\<forall>p. r = Path p \<longrightarrow> is_path G start goal p))"

section \<open>Distances of a path\<close>




section \<open>Notions for the multi-goal planner\<close>

text \<open>A leg: the path the single-goal planner returns between two nodes, with its reported length.\<close>

definition leg :: "graph \<Rightarrow> nat \<Rightarrow> nat \<Rightarrow> nat list \<Rightarrow> real \<Rightarrow> bool" where
  "leg G c g p d \<longleftrightarrow>
     astar G c g = Some (Path p) \<and> calculatePathDistance (nodes G) p = Inr d"

text \<open>
  Position \<open>k\<close> of the remaining goals holds a goal whose leg has the least length \<open>d\<close>,
  strictly less than that of every goal before it.
\<close>

definition chosen :: "graph \<Rightarrow> nat \<Rightarrow> nat list \<Rightarrow> nat \<Rightarrow> real \<Rightarrow> bool" where
  "chosen G c rem k d \<longleftrightarrow>
     k < length rem
     \<and> (\<forall>g \<in> set rem. \<forall>p' d'. leg G c g p' d' \<longrightarrow> d \<le> d')
     \<and> (\<forall>g \<in> set (take k rem). \<forall>p' d'. leg G c g p' d' \<longrightarrow> d < d')"

text \<open>The two outcomes of the scan over the remaining goals: the running best is kept, or replaced.\<close>

definition kept :: "graph \<Rightarrow> nat \<Rightarrow> nat list \<Rightarrow> best \<Rightarrow> bool" where
  "kept G c rem best \<longleftrightarrow>
     (\<forall>g \<in> set rem. \<forall>p' d'. leg G c g p' d' \<longrightarrow> (\<exists>bg bp bd. best = Some (bg, bp, bd) \<and> bd \<le> d'))"

definition replaced :: "graph \<Rightarrow> nat \<Rightarrow> nat list \<Rightarrow> best \<Rightarrow> best \<Rightarrow> bool" where
  "replaced G c rem best res \<longleftrightarrow>
     (\<exists>k p d. res = Some (rem ! k, p, d) \<and> leg G c (rem ! k) p d
        \<and> (\<forall>bg bp bd. best = Some (bg, bp, bd) \<longrightarrow> d < bd) \<and> chosen G c rem k d)"

text \<open>
  What the greedy loop maintains: every goal is still remaining or on the plan, and the
  plan ends at the current position.
\<close>

definition multi_inv :: "nat list \<Rightarrow> multi_state \<Rightarrow> bool" where
  "multi_inv goals st \<longleftrightarrow>
     set goals \<subseteq> set (remaining st) \<union> set (fullPath st)
     \<and> set (remaining st) \<subseteq> set goals
     \<and> fullPath st \<noteq> [] \<and> last (fullPath st) = current_node st"

definition multi_post :: "nat list \<Rightarrow> graph \<Rightarrow> multi_state \<Rightarrow> error + multi_state \<Rightarrow> bool" where
  "multi_post goals G st r \<longleftrightarrow>
     (\<forall>st'. r = Inr st' \<longrightarrow>
        prefix (fullPath st) (fullPath st') \<and> (multi_inv goals st \<longrightarrow> multi_inv goals st'))"


section \<open>Termination of the search\<close>

text \<open>The sums of finitely many weights, with repetition: the values an accumulated cost can take.\<close>

inductive_set weight_sums :: "real set \<Rightarrow> real set" for W :: "real set" where
  zero: "0 \<in> weight_sums W"
| add: "c \<in> weight_sums W \<Longrightarrow> w \<in> W \<Longrightarrow> c + w \<in> weight_sums W"

text \<open>How many such sums lie below a value; finite when the weights are non-negative.\<close>

definition rank :: "real set \<Rightarrow> real \<Rightarrow> nat" where
  "rank W v = card {c \<in> weight_sums W. c < v}"

text \<open>The \<open>cameFrom\<close> links as a relation from parent to child.\<close>

definition parent_rel :: "(nat \<rightharpoonup> nat) \<Rightarrow> (nat \<times> nat) set" where
  "parent_rel cf = {(p, n). cf n = Some p}"

text \<open>
  With non-negative weights: the start keeps cost 0 and no link, costs are non-negative,
  a child costs at least its parent plus the step between them, and the links have no cycle.
\<close>

definition inv_tree :: "graph \<Rightarrow> nat \<Rightarrow> astar_state \<Rightarrow> bool" where
  "inv_tree G start st \<longleftrightarrow>
     gScore st start = Some 0 \<and> cameFrom st start = None
     \<and> (\<forall>n v. gScore st n = Some v \<longrightarrow> 0 \<le> v)
     \<and> (\<forall>n p. cameFrom st n = Some p \<longrightarrow>
           (\<exists>gp gn. gScore st p = Some gp \<and> gScore st n = Some gn
              \<and> gp + step_weight (edges G) p n \<le> gn))
     \<and> wf (parent_rel (cameFrom st))"

text \<open>The nodes a search from \<open>start\<close> can ever score.\<close>

definition universe :: "graph \<Rightarrow> nat \<Rightarrow> nat set" where
  "universe G start = insert start (edge_from ` set (edges G) \<union> edge_to ` set (edges G))"

definition inv_meas :: "graph \<Rightarrow> nat \<Rightarrow> astar_state \<Rightarrow> bool" where
  "inv_meas G start st \<longleftrightarrow>
     dom (gScore st) \<subseteq> universe G start
     \<and> (\<forall>n v. gScore st n = Some v \<longrightarrow> v \<in> weight_sums (weight ` set (edges G)))"

text \<open>The measure of the search loop: unscored nodes, then the ranks of the scores, then the size of the open set.\<close>

definition unscored :: "graph \<Rightarrow> nat \<Rightarrow> astar_state \<Rightarrow> nat" where
  "unscored G start st = card (universe G start - dom (gScore st))"

definition node_rank :: "graph \<Rightarrow> astar_state \<Rightarrow> nat \<Rightarrow> nat" where
  "node_rank G st n =
     (case gScore st n of None \<Rightarrow> 0 | Some v \<Rightarrow> rank (weight ` set (edges G)) v)"

definition rank_sum :: "graph \<Rightarrow> nat \<Rightarrow> astar_state \<Rightarrow> nat" where
  "rank_sum G start st = (\<Sum>n \<in> universe G start. node_rank G st n)"

definition score_order :: "graph \<Rightarrow> nat \<Rightarrow> (astar_state \<times> astar_state) set" where
  "score_order G start =
     inv_image (less_than <*lex*> less_than) (\<lambda>st. (unscored G start st, rank_sum G start st))"

definition search_order :: "graph \<Rightarrow> nat \<Rightarrow> (astar_state \<times> astar_state) set" where
  "search_order G start =
     inv_image (less_than <*lex*> less_than <*lex*> less_than)
       (\<lambda>st. (unscored G start st, rank_sum G start st, length (openSet st)))"

text \<open>The search on \<open>scenario\<close> from node 0 to node 2: after the expansion of node 0, and after node 1 has relaxed node 2.\<close>

definition scenario_opened :: astar_state where
  "scenario_opened =
     \<lparr>openSet = [1, 2], cameFrom = [1 \<mapsto> 0, 2 \<mapsto> 0],
      gScore = [0 \<mapsto> 0, 1 \<mapsto> 10, 2 \<mapsto> 25], fScore = [0 \<mapsto> sqrt 200, 1 \<mapsto> 20, 2 \<mapsto> 25]\<rparr>"

definition scenario_relaxed :: astar_state where
  "scenario_relaxed =
     \<lparr>openSet = [2], cameFrom = [1 \<mapsto> 0, 2 \<mapsto> 1],
      gScore = [0 \<mapsto> 0, 1 \<mapsto> 10, 2 \<mapsto> 20], fScore = [0 \<mapsto> sqrt 200, 1 \<mapsto> 20, 2 \<mapsto> 20]\<rparr>"

section \<open>What the search finds\<close>

text \<open>
  How relaxation changes a state: scores only go down, the open set only grows, and a node
  whose score changed is in the open set.
\<close>

definition improves :: "astar_state \<Rightarrow> astar_state \<Rightarrow> bool" where
  "improves st st' \<longleftrightarrow>
     (\<forall>n v. gScore st n = Some v \<longrightarrow> (\<exists>v'. gScore st' n = Some v' \<and> v' \<le> v))
     \<and> set (openSet st) \<subseteq> set (openSet st')
     \<and> (\<forall>n. gScore st' n \<noteq> gScore st n \<longrightarrow> n \<in> set (openSet st'))"

text \<open>A node is settled when every node joined to it by an edge is scored.\<close>

definition settled :: "graph \<Rightarrow> astar_state \<Rightarrow> nat \<Rightarrow> bool" where
  "settled G st n \<longleftrightarrow> (\<forall>m. joined (edges G) n m \<longrightarrow> gScore st m \<noteq> None)"

text \<open>
  Every scored node outside the open set is settled, and the goal stays in the open set
  once it is scored.
\<close>

definition inv_closed :: "graph \<Rightarrow> nat \<Rightarrow> astar_state \<Rightarrow> bool" where
  "inv_closed G goal st \<longleftrightarrow>
     (\<forall>n. n \<in> dom (gScore st) \<and> n \<notin> set (openSet st) \<longrightarrow> settled G st n)
     \<and> (goal \<in> dom (gScore st) \<longrightarrow> goal \<in> set (openSet st))"

text \<open>
  What the search returns: a path from \<open>start\<close> to \<open>goal\<close> along edges of the graph, or
  \<open>Unreachable\<close> when there is no such path.
\<close>

definition search_result :: "graph \<Rightarrow> nat \<Rightarrow> nat \<Rightarrow> outcome \<Rightarrow> bool" where
  "search_result G start goal r \<longleftrightarrow>
     (\<exists>p. r = Path p \<and> is_path G start goal p)
     \<or> (r = Unreachable \<and> (\<forall>q. \<not> is_path G start goal q))"

definition full_post :: "nat \<Rightarrow> graph \<Rightarrow> nat \<Rightarrow> astar_state \<Rightarrow> outcome \<Rightarrow> bool" where
  "full_post start G goal st r \<longleftrightarrow>
     (endpoints_exist G \<and> goal < length (nodes G)
      \<and> inv_struct G start st \<and> inv_closed G goal st
      \<longrightarrow> search_result G start goal r)"

section \<open>Single-goal planner: the trivial plan\<close>

lemma reconstructPath_root: "cf current = None \<Longrightarrow> reconstructPath cf current = Some [current]"
  by (simp add: reconstructPath_def reconstruct_loop.simps)

text \<open>
  C9: for every node \<open>start\<close> of the graph, \<open>astar(graph, start, start)\<close> returns the
  zero-edge path that consists of \<open>start\<close> alone.
\<close>

theorem astar_start_start:
  assumes "start < length (nodes G)"
  shows "astar G start start = Some (Path [start])"
proof -
  have h: "heuristic_at (nodes G) start start = Inr (heuristic (nodes G ! start) (nodes G ! start))"
    using assms by (simp add: heuristic_at_def node_at_def)
  show ?thesis
    unfolding astar_def h
    by (subst astar_loop.simps)
      (simp add: astar_init_def select_current_def reconstructPath_root)
qed

theorem astar_start_start_witness:
  "0 < length (nodes apart) \<and> astar apart 0 0 = Some (Path [0])"
  using astar_start_start [of 0 apart] by (simp add: apart_def)

section \<open>Running the planner on the example graphs\<close>

lemma heuristic_level: "node_y a = node_y b \<Longrightarrow> heuristic a b = \<bar>node_x a - node_x b\<bar>"
  by (simp add: heuristic_def Let_def)

lemmas run_simps =
  astar_def astar_init_def astar_loop.simps select_current_def score_lt_def neighbors_def
  find_edge_def relax_one_def set_add_def set_delete_def reconstructPath_def
  reconstruct_loop.simps heuristic_at_def node_at_def heuristic_level mk_node_def mk_edge_def
  Let_def

lemmas multi_simps =
  calculatePath_multi_def multi_init_def multi_loop.simps new_Set_def calculatePathDistance_def

lemma one_way_back: "astar one_way (Suc 0) 0 = Some (Path [Suc 0, 0])"
  by (simp add: one_way_def run_simps)


lemma apart_run: "astar apart 0 (Suc 0) = Some Unreachable"
  by (simp add: apart_def run_simps)

lemma detour_run: "astar detour 0 2 = Some (Path [0, 2])"
  by (simp add: detour_def run_simps)

lemma tie_run: "astar tie 0 3 = Some (Path [0, 2, 3])"
  by (simp add: tie_def run_simps)





section \<open>Where the planner departs from the intended design\<close>

text \<open>
  Counterexample to C1: all weights of \<open>detour\<close> are non-negative and the planner returns
  the path \<open>[0, 2]\<close>. The only edge between nodes 0 and 2 has weight 10, so that path
  costs 10, while the path \<open>[0, 1, 2]\<close>, along the edges from 0 to 1 and from 1 to 2,
  costs 2. And in \<open>one_way\<close>, whose only edge runs from node 0 to node 1, the planner
  returns a path from node 1 to node 0, not \<open>Unreachable\<close>.
\<close>

theorem astar_not_cheapest_counterexample:
  "weights_nonneg detour
   \<and> astar detour 0 2 = Some (Path [0, 2])
   \<and> edges_between (edges detour) 0 2 = [mk_edge 0 2 10]
   \<and> traverses (edges detour) [0, 2] [mk_edge 0 2 10]
   \<and> edges_cost [mk_edge 0 2 10] = 10
   \<and> is_path detour 0 2 [0, 1, 2]
   \<and> directed_edge (edges detour) 0 1 \<and> directed_edge (edges detour) 1 2
   \<and> traverses (edges detour) [0, 1, 2] [mk_edge 0 1 1, mk_edge 1 2 1]
   \<and> edges_cost [mk_edge 0 1 1, mk_edge 1 2 1] = 2
   \<and> weights_nonneg one_way \<and> edges one_way = [mk_edge 0 1 7]
   \<and> astar one_way 1 0 = Some (Path [1, 0])"
  by (simp add: detour_run one_way_back)
    (simp add: detour_def one_way_def is_path_def joined_def directed_edge_def edges_between_def
      edges_cost_def mk_edge_def weights_nonneg_def)

text \<open>
  Counterexample to C2: the only edge of \<open>one_way\<close> runs from node 0 to node 1, and the
  planner returns a path that walks it from node 1 to node 0.
\<close>

theorem astar_walks_edge_backwards_counterexample:
  "edges one_way = [mk_edge 0 1 7]
   \<and> \<not> directed_edge (edges one_way) 1 0
   \<and> astar one_way 1 0 = Some (Path [1, 0])"
  by (simp add: one_way_back)
    (simp add: one_way_def directed_edge_def mk_edge_def)

text \<open>
  Counterexample to C3: in \<open>apart\<close> goal 1 cannot be reached from node 0. The loop ends
  with goal 1 left in \<open>remaining\<close>, and the value of \<open>calculatePath\<close> is the path \<open>[0]\<close>,
  the same as for an empty set of goals: the unreached goal is not reported.
\<close>

theorem multi_goal_drops_unreached_counterexample:
  "multi_loop apart (multi_init 0 [1]) =
     Some (Inr \<lparr>current_node = 0, remaining = [1], fullPath = [0]\<rparr>)
   \<and> calculatePath_multi apart 0 [1] = Some (Inr [0])
   \<and> calculatePath_multi apart 0 [] = Some (Inr [0])"
  by (simp add: multi_simps apart_run set_add_def)

text \<open>
  Counterexample to C4: searching \<open>tie\<close> from node 0 to node 3, the frontier after the
  first expansion holds nodes 1 and 2 with the same estimated total cost 5. Node 1 has
  the lower accumulated cost and the lower id, yet node 2 is expanded, and the search
  returns the path through node 2.
\<close>

theorem astar_tie_break_counterexample:
  "relax tie 3 0 (neighbors (edges tie) 0) ((astar_init 0 10)\<lparr>openSet := set_delete 0 [0]\<rparr>)
     = Inr tie_frontier
   \<and> openSet tie_frontier = [1, 2]
   \<and> fScore tie_frontier 1 = Some 5 \<and> fScore tie_frontier 2 = Some 5
   \<and> gScore tie_frontier 1 = Some 1 \<and> gScore tie_frontier 2 = Some 3
   \<and> select_current (fScore tie_frontier) 1 [2] = 2
   \<and> astar tie 0 3 = Some (Path [0, 2, 3])"
  by (simp add: tie_run) (simp add: tie_def tie_frontier_def run_simps)



section \<open>The search keeps to the edges of the graph\<close>

lemma find_edge_mem:
  assumes "find_edge es a b = Some e"
  shows "e \<in> set es \<and> ((edge_from e = a \<and> edge_to e = b) \<or> (edge_to e = a \<and> edge_from e = b))"
proof -
  from assms obtain i where "i < length es" "e = es ! i"
    "(edge_from (es ! i) = a \<and> edge_to (es ! i) = b) \<or> (edge_to (es ! i) = a \<and> edge_from (es ! i) = b)"
    unfolding find_edge_def find_Some_iff by blast
  then show ?thesis by simp
qed

lemma find_edge_joined: "find_edge es a b = Some e \<Longrightarrow> joined es a b"
  using find_edge_mem [of es a b e] unfolding joined_def by blast

lemma joined_find_edge:
  assumes "joined es a b"
  shows "\<exists>e. find_edge es a b = Some e"
proof (cases "find_edge es a b")
  case None
  then show ?thesis
    using assms unfolding find_edge_def joined_def find_None_iff by blast
next
  case (Some e)
  then show ?thesis by simp
qed

lemma set_neighbors: "set (neighbors es c) = {n. joined es c n}"
proof -
  have "set (neighbors es c) =
      (\<lambda>e. if edge_from e = c then edge_to e else edge_from e) ` {e \<in> set es. edge_from e = c \<or> edge_to e = c}"
    by (simp add: neighbors_def)
  also have "\<dots> = {n. joined es c n}"
    unfolding joined_def by (auto simp: image_iff) 
  finally show ?thesis .
qed

lemma relax_one_cases:
  assumes "relax_one G goal c n st = Inr st'"
  obtains (skip) e gc gn where "find_edge (edges G) c n = Some e" "gScore st c = Some gc"
      "gScore st n = Some gn" "gn \<le> gc + weight e" "st' = st"
    | (update) e gc h where "find_edge (edges G) c n = Some e" "gScore st c = Some gc"
      "\<forall>gn. gScore st n = Some gn \<longrightarrow> gc + weight e < gn"
      "heuristic_at (nodes G) n goal = Inr h"
      "st' = st\<lparr>cameFrom := (cameFrom st)(n \<mapsto> c),
                gScore := (gScore st)(n \<mapsto> gc + weight e),
                fScore := (fScore st)(n \<mapsto> gc + weight e + h),
                openSet := set_add n (openSet st)\<rparr>"
  using assms unfolding relax_one_def Let_def
  by (auto split: option.splits if_splits sum.splits)

lemma set_set_add [simp]: "set (set_add v s) = insert v (set s)"
  by (simp add: set_add_def insert_absorb)

lemma set_set_delete [simp]: "set (set_delete v s) = set s - {v}"
  by (simp add: set_delete_def)

lemma relax_one_struct:
  assumes "relax_one G goal c n st = Inr st'" and "inv_struct G start st"
  shows "inv_struct G start st'"
  using assms(1)
proof (cases rule: relax_one_cases)
  case skip
  then show ?thesis using assms(2) by simp
next
  case (update e gc h)
  have j: "joined (edges G) c n" using update(1) by (rule find_edge_joined)
  have c: "c \<in> dom (gScore st)" using update(2) by blast
  have dom': "dom (gScore st') = insert n (dom (gScore st))"
    and open': "set (openSet st') = insert n (set (openSet st))"
    and cf': "cameFrom st' = (cameFrom st)(n \<mapsto> c)"
    by (simp_all add: update(5))
  from assms(2) have a: "set (openSet st) \<subseteq> dom (gScore st)" "start \<in> dom (gScore st)"
    and b: "\<And>m p. cameFrom st m = Some p \<Longrightarrow>
            joined (edges G) p m \<and> p \<in> dom (gScore st) \<and> m \<in> dom (gScore st)"
    and d: "\<And>m. m \<in> dom (gScore st) \<Longrightarrow> m = start \<or> cameFrom st m \<noteq> None"
    unfolding inv_struct_def by blast+
  have "set (openSet st') \<subseteq> dom (gScore st')" using a(1) dom' open' by blast
  moreover have "start \<in> dom (gScore st')" using a(2) dom' by blast
  moreover have "\<forall>m p. cameFrom st' m = Some p \<longrightarrow>
            joined (edges G) p m \<and> p \<in> dom (gScore st') \<and> m \<in> dom (gScore st')"
  proof (intro allI impI)
    fix m p assume mp: "cameFrom st' m = Some p"
    show "joined (edges G) p m \<and> p \<in> dom (gScore st') \<and> m \<in> dom (gScore st')"
    proof (cases "m = n")
      case True
      then have "p = c" using mp cf' by simp
      then show ?thesis using True j c dom' by simp
    next
      case False
      then have "cameFrom st m = Some p" using mp cf' by simp
      from b[OF this] show ?thesis using dom' by simp
    qed
  qed
  moreover have "\<forall>m \<in> dom (gScore st'). m = start \<or> cameFrom st' m \<noteq> None"
  proof
    fix m assume "m \<in> dom (gScore st')"
    then have "m = n \<or> m \<in> dom (gScore st)" using dom' by simp
    then show "m = start \<or> cameFrom st' m \<noteq> None"
      using d[of m] cf' by (cases "m = n") simp_all
  qed
  ultimately show ?thesis unfolding inv_struct_def by blast
qed

lemma relax_struct:
  "relax G goal c nbs st = Inr st' \<Longrightarrow> inv_struct G start st \<Longrightarrow> inv_struct G start st'"
proof (induction nbs arbitrary: st)
  case Nil
  then show ?case by simp
next
  case (Cons n nbs)
  from Cons.prems(1) obtain st1 where one: "relax_one G goal c n st = Inr st1"
    and rest: "relax G goal c nbs st1 = Inr st'"
    by (simp split: sum.splits)
  from relax_one_struct[OF one Cons.prems(2)] have "inv_struct G start st1" .
  from Cons.IH[OF rest this] show ?case .
qed

lemma delete_struct:
  assumes "inv_struct G start st"
  shows "inv_struct G start (st\<lparr>openSet := set_delete c (openSet st)\<rparr>)"
proof -
  have "set (openSet (st\<lparr>openSet := set_delete c (openSet st)\<rparr>)) \<subseteq> set (openSet st)"
    by (simp add: set_delete_def)
  then show ?thesis
    using assms unfolding inv_struct_def by simp blast
qed

lemma init_struct: "inv_struct G start (astar_init start h)"
  by (simp add: inv_struct_def astar_init_def)

lemma select_current_mem: "select_current fs v vs \<in> set (v # vs)"
  unfolding select_current_def
  by (induction vs rule: rev_induct) auto

lemma shape_step:
  assumes IH: "\<And>cf c path r. rl cf c path = Some r \<Longrightarrow> shape es cf c path r"
    and body: "(case cf c of None \<Rightarrow> Some path | Some p \<Rightarrow> rl cf p (p # path)) = Some r"
  shows "shape es cf c path r"
  unfolding shape_def
proof (intro impI allI, elim conjE)
  fix rest
  assume adj: "\<forall>n p. cf n = Some p \<longrightarrow> joined es p n"
    and path: "path = c # rest" and w: "walk es path"
  show "\<exists>q. r = q @ c # rest \<and> cf (hd r) = None \<and> walk es r
              \<and> (hd r = c \<or> (\<exists>n. cf n = Some (hd r)))"
  proof (cases "cf c")
    case None
    then have "r = path" using body by simp
    then have "r = [] @ c # rest \<and> cf (hd r) = None \<and> walk es r
              \<and> (hd r = c \<or> (\<exists>n. cf n = Some (hd r)))"
      using None path w by simp
    then show ?thesis by (rule exI)
  next
    case (Some p)
    then have rec: "rl cf p (p # path) = Some r" using body by simp
    have "joined es p c" using Some adj by simp
    then have w': "walk es (p # path)" using w path by simp
    have "shape es cf p (p # path) r" using IH[OF rec] .
    then have "\<exists>q. r = q @ p # path \<and> cf (hd r) = None \<and> walk es r
              \<and> (hd r = p \<or> (\<exists>n. cf n = Some (hd r)))"
      unfolding shape_def using adj w' by simp
    then obtain q where q: "r = q @ p # path" "cf (hd r) = None" "walk es r"
      "hd r = p \<or> (\<exists>n. cf n = Some (hd r))"
      by (elim exE conjE)
    have "\<exists>n. cf n = Some (hd r)" using q(4) Some by blast
    moreover have "r = (q @ [p]) @ c # rest" using q(1) path by simp
    ultimately have "r = (q @ [p]) @ c # rest \<and> cf (hd r) = None \<and> walk es r
              \<and> (hd r = c \<or> (\<exists>n. cf n = Some (hd r)))"
      using q(2,3) by simp
    then show ?thesis by (rule exI)
  qed
qed

lemma reconstruct_loop_shape:
  assumes "reconstruct_loop cf c path = Some r"
  shows "shape es cf c path r"
  by (rule reconstruct_loop.raw_induct[where P = "shape es", OF _ assms]) (rule shape_step)

lemma reconstructPath_shape:
  assumes "reconstructPath cf c = Some r" and "\<forall>n p. cf n = Some p \<longrightarrow> joined es p n"
  shows "r \<noteq> [] \<and> last r = c \<and> cf (hd r) = None \<and> walk es r
         \<and> (hd r = c \<or> (\<exists>n. cf n = Some (hd r)))"
proof -
  have "shape es cf c [c] r"
    using reconstruct_loop_shape assms(1) unfolding reconstructPath_def by blast
  then have "\<exists>q. r = q @ c # [] \<and> cf (hd r) = None \<and> walk es r
              \<and> (hd r = c \<or> (\<exists>n. cf n = Some (hd r)))"
    unfolding shape_def using assms(2) by simp
  then obtain q where q: "r = q @ [c]" "cf (hd r) = None" "walk es r"
     "hd r = c \<or> (\<exists>n. cf n = Some (hd r))"
    by (elim exE conjE)
  then show ?thesis by simp
qed

lemma relax_one_no_NaN:
  "gScore st c \<noteq> None \<Longrightarrow> relax_one G goal c n st \<noteq> Inl NaNScore"
  unfolding relax_one_def Let_def heuristic_at_def
  by (auto split: option.splits sum.splits)

lemma relax_one_dom:
  assumes "relax_one G goal c n st = Inr st'" and "gScore st m \<noteq> None"
  shows "gScore st' m \<noteq> None"
  using assms(1)
proof (cases rule: relax_one_cases)
  case skip
  then show ?thesis using assms(2) by simp
next
  case (update e gc h)
  then show ?thesis using assms(2) by simp
qed

lemma relax_no_NaN:
  "gScore st c \<noteq> None \<Longrightarrow> relax G goal c nbs st \<noteq> Inl NaNScore"
proof (induction nbs arbitrary: st)
  case Nil
  then show ?case by simp
next
  case (Cons n nbs)
  show ?case
  proof (cases "relax_one G goal c n st")
    case (Inl err)
    then have "err \<noteq> NaNScore" using relax_one_no_NaN[OF Cons.prems, of G goal n] by auto
    then show ?thesis using Inl by simp
  next
    case (Inr st1)
    have "gScore st1 c \<noteq> None" using relax_one_dom[OF Inr Cons.prems] .
    from Cons.IH[OF this] show ?thesis using Inr by simp
  qed
qed

lemma struct_post_step:
  assumes IH: "\<And>G goal st r. al G goal st = Some r \<Longrightarrow> struct_post start G goal st r"
    and body: "(case openSet st of
        [] \<Rightarrow> Some Unreachable
      | v # vs \<Rightarrow>
          (let current = select_current (fScore st) v vs in
           if current = goal
           then map_option Path (reconstructPath (cameFrom st) current)
           else
             (case relax G goal current (neighbors (edges G) current)
                     (st\<lparr>openSet := set_delete current (openSet st)\<rparr>) of
                Inl err \<Rightarrow> Some (Inl err)
              | Inr st' \<Rightarrow> al G goal st'))) = Some r"
  shows "struct_post start G goal st r"
  unfolding struct_post_def
proof
  assume inv: "inv_struct G start st"
  show "r \<noteq> Inl NaNScore \<and> (\<forall>p. r = Path p \<longrightarrow> is_path G start goal p)"
  proof (cases "openSet st")
    case Nil
    then have "r = Unreachable" using body by simp
    then show ?thesis by simp
  next
    case (Cons v vs)
    define c where "c = select_current (fScore st) v vs"
    have c_open: "c \<in> set (openSet st)"
      unfolding c_def Cons by (rule select_current_mem)
    then have c_dom: "gScore st c \<noteq> None"
      using inv unfolding inv_struct_def by blast
    show ?thesis
    proof (cases "c = goal")
      case True
      then have "map_option Path (reconstructPath (cameFrom st) c) = Some r"
        using body Cons c_def by (simp add: Let_def)
      then obtain p where p: "reconstructPath (cameFrom st) c = Some p" "r = Path p"
        by blast
      have adj: "\<forall>n p. cameFrom st n = Some p \<longrightarrow> joined (edges G) p n"
        using inv unfolding inv_struct_def by blast
      from reconstructPath_shape[OF p(1) adj]
      have sh: "p \<noteq> []" "last p = c" "cameFrom st (hd p) = None" "walk (edges G) p"
        "hd p = c \<or> (\<exists>n. cameFrom st n = Some (hd p))"
        by blast+
      have "hd p \<in> dom (gScore st)"
        using sh(5) c_dom inv unfolding inv_struct_def by blast
      then have "hd p = start"
        using sh(3) inv unfolding inv_struct_def by blast
      then have "is_path G start goal p"
        using sh True unfolding is_path_def by simp
      then show ?thesis using p(2) by simp
    next
      case False
      let ?st0 = "st\<lparr>openSet := set_delete c (openSet st)\<rparr>"
      have b: "(case relax G goal c (neighbors (edges G) c) ?st0 of
                Inl err \<Rightarrow> Some (Inl err)
              | Inr st' \<Rightarrow> al G goal st') = Some r"
        using body Cons c_def False by (simp add: Let_def)
      have inv0: "inv_struct G start ?st0" using inv by (rule delete_struct)
      have dom0: "gScore ?st0 c \<noteq> None" using c_dom by simp
      show ?thesis
      proof (cases "relax G goal c (neighbors (edges G) c) ?st0")
        case (Inl err)
        then have "r = Inl err" using b by simp
        moreover have "err \<noteq> NaNScore"
          using relax_no_NaN[OF dom0, of G goal "neighbors (edges G) c"] Inl by auto
        ultimately show ?thesis by simp
      next
        case (Inr st')
        then have "al G goal st' = Some r" using b by simp
        from IH[OF this] have "struct_post start G goal st' r" .
        moreover have "inv_struct G start st'" using relax_struct[OF Inr inv0] .
        ultimately show ?thesis unfolding struct_post_def by blast
      qed
    qed
  qed
qed

lemma astar_loop_struct:
  assumes "astar_loop G goal st = Some r"
  shows "struct_post start G goal st r"
  by (rule astar_loop.raw_induct[where P = "struct_post start", OF _ assms])
    (rule struct_post_step)

lemma astar_result_struct:
  assumes "astar G start goal = Some r"
  shows "r \<noteq> Inl NaNScore \<and> (\<forall>p. r = Path p \<longrightarrow> is_path G start goal p)"
proof (cases "heuristic_at (nodes G) start goal")
  case (Inl err)
  then have "r = Inl err" using assms by (simp add: astar_def)
  moreover have "err = TypeError"
    using Inl unfolding heuristic_at_def by (simp split: option.splits)
  ultimately show ?thesis by simp
next
  case (Inr h)
  then have "astar_loop G goal (astar_init start h) = Some r"
    using assms by (simp add: astar_def)
  from astar_loop_struct[OF this, of start] init_struct[of G start h]
  show ?thesis unfolding struct_post_def by blast
qed

lemma astar_no_NaNScore: "astar G start goal \<noteq> Some (Inl NaNScore)"
  using astar_result_struct [of G start goal "Inl NaNScore"] by blast

section \<open>Edges are walked in both directions\<close>

text \<open>
  C2, as the code has it: node expansion follows every edge that has the current node
  as an endpoint, outgoing or incoming, and every step of a returned path runs along an
  edge of the graph, in one direction or the other, from the start to the goal.
\<close>

theorem astar_path_follows_edges_either_way:
  assumes "astar G start goal = Some (Path p)"
  shows "is_path G start goal p \<and> set (neighbors (edges G) c) = {n. joined (edges G) c n}"
  using astar_result_struct [OF assms] set_neighbors [of "edges G" c] by blast

theorem astar_path_follows_edges_either_way_witness:
  "astar one_way 1 0 = Some (Path [1, 0])
   \<and> is_path one_way 1 0 [1, 0]
   \<and> set (neighbors (edges one_way) 1) = {n. joined (edges one_way) 1 n}"
proof -
  have run: "astar one_way 1 0 = Some (Path [1, 0])"
    using one_way_back by simp
  from astar_path_follows_edges_either_way [OF run, of 1] run show ?thesis
    by simp
qed

section \<open>Which frontier node is expanded\<close>

lemma select_current_snoc:
  "select_current fs v (vs @ [b]) =
     (if score_lt fs (select_current fs v vs) b then select_current fs v vs else b)"
  by (simp add: select_current_def)

text \<open>
  C4, as the code has it: among the frontier nodes, taken in the order in which they
  were inserted into the open set, the one expanded has the least estimated total cost,
  and of several with the least cost it is the one inserted last. Neither the accumulated
  cost nor the node id is consulted. The choice is a function of the frontier and the
  scores, so the search is deterministic.
\<close>

theorem select_current_last_minimal:
  assumes "\<forall>u \<in> set (v # vs). fs u \<noteq> None"
  shows "\<exists>i fc. i < length (v # vs) \<and> (v # vs) ! i = select_current fs v vs
           \<and> fs (select_current fs v vs) = Some fc
           \<and> (\<forall>j fj. j < length (v # vs) \<and> fs ((v # vs) ! j) = Some fj
                 \<longrightarrow> fc \<le> fj \<and> (i < j \<longrightarrow> fc < fj))"
  using assms
proof (induction vs rule: rev_induct)
  case Nil
  then obtain fv where "fs v = Some fv" by auto
  then show ?case by (auto simp: select_current_def)
next
  case (snoc b vs)
  let ?c = "select_current fs v vs"
  from snoc obtain i fc where i: "i < length (v # vs)" "(v # vs) ! i = ?c" "fs ?c = Some fc"
    and mins: "\<forall>j fj. j < length (v # vs) \<and> fs ((v # vs) ! j) = Some fj
                 \<longrightarrow> fc \<le> fj \<and> (i < j \<longrightarrow> fc < fj)"
    by auto
  from snoc.prems obtain fb where fb: "fs b = Some fb" by auto
  have nth_old: "\<And>j. j < length (v # vs) \<Longrightarrow> (v # vs @ [b]) ! j = (v # vs) ! j"
    by (metis append_Cons nth_append)
  have nth_new: "(v # vs @ [b]) ! length (v # vs) = b"
    by (metis append_Cons nth_append_length)
  show ?case
  proof (cases "fc < fb")
    case True
    then have sel: "select_current fs v (vs @ [b]) = ?c"
      using i(3) fb by (simp add: select_current_snoc score_lt_def)
    have "\<forall>j fj. j < length (v # vs @ [b]) \<and> fs ((v # vs @ [b]) ! j) = Some fj
                 \<longrightarrow> fc \<le> fj \<and> (i < j \<longrightarrow> fc < fj)"
    proof (intro allI impI)
      fix j fj assume a: "j < length (v # vs @ [b]) \<and> fs ((v # vs @ [b]) ! j) = Some fj"
      show "fc \<le> fj \<and> (i < j \<longrightarrow> fc < fj)"
      proof (cases "j < length (v # vs)")
        case True
        then show ?thesis using a mins nth_old by auto
      next
        case False
        then have "j = length (v # vs)" using a by simp
        then have "fj = fb" using a nth_new fb by simp
        then show ?thesis using \<open>fc < fb\<close> by simp
      qed
    qed
    moreover have "i < length (v # vs @ [b])" "(v # vs @ [b]) ! i = ?c"
      using i nth_old by auto
    ultimately show ?thesis
      unfolding sel using i(3) by blast
  next
    case False
    then have sel: "select_current fs v (vs @ [b]) = b"
      using i(3) fb by (simp add: select_current_snoc score_lt_def)
    have "\<forall>j fj. j < length (v # vs @ [b]) \<and> fs ((v # vs @ [b]) ! j) = Some fj
                 \<longrightarrow> fb \<le> fj \<and> (length (v # vs) < j \<longrightarrow> fb < fj)"
    proof (intro allI impI)
      fix j fj assume a: "j < length (v # vs @ [b]) \<and> fs ((v # vs @ [b]) ! j) = Some fj"
      show "fb \<le> fj \<and> (length (v # vs) < j \<longrightarrow> fb < fj)"
      proof (cases "j < length (v # vs)")
        case True
        then have "fc \<le> fj" using a mins nth_old by auto
        then show ?thesis using False True by simp
      next
        case False
        then have "j = length (v # vs)" using a by simp
        then have "fj = fb" using a nth_new fb by simp
        then show ?thesis using \<open>j = length (v # vs)\<close> by simp
      qed
    qed
    moreover have "length (v # vs) < length (v # vs @ [b])" by simp
    ultimately show ?thesis
      unfolding sel using fb nth_new by blast
  qed
qed

theorem select_current_last_minimal_witness:
  "fScore tie_frontier 1 \<noteq> None \<and> fScore tie_frontier 2 \<noteq> None
   \<and> select_current (fScore tie_frontier) 1 [2] = 2
   \<and> (\<exists>i fc. i < length [1, 2::nat] \<and> [1, 2] ! i = select_current (fScore tie_frontier) 1 [2]
           \<and> fScore tie_frontier (select_current (fScore tie_frontier) 1 [2]) = Some fc
           \<and> (\<forall>j fj. j < length [1, 2::nat] \<and> fScore tie_frontier ([1, 2] ! j) = Some fj
                 \<longrightarrow> fc \<le> fj \<and> (i < j \<longrightarrow> fc < fj)))"
proof -
  have h: "\<forall>u \<in> set [1, 2]. fScore tie_frontier u \<noteq> None"
    by (simp add: tie_frontier_def)
  have s: "select_current (fScore tie_frontier) 1 [2] = 2"
    by (simp add: tie_frontier_def select_current_def score_lt_def)
  have "fScore tie_frontier 1 \<noteq> None \<and> fScore tie_frontier 2 \<noteq> None"
    by (simp add: tie_frontier_def)
  with select_current_last_minimal [OF h] s show ?thesis
    by blast
qed

section \<open>Distances along a walk\<close>






lemma walk_distance_total:
  assumes "endpoints_exist G"
  shows "walk (edges G) p \<Longrightarrow> \<exists>d. calculatePathDistance_loop (nodes G) p acc = Inr d"
proof (induction p arbitrary: acc rule: induct_list012)
  case 1
  show ?case by simp
next
  case (2 a)
  show ?case by simp
next
  case (3 a b rest)
  have j: "joined (edges G) a b" and w: "walk (edges G) (b # rest)"
    using 3(3) by simp_all
  from j assms have "a < length (nodes G) \<and> b < length (nodes G)"
    unfolding joined_def endpoints_exist_def by blast
  then have h: "heuristic_at (nodes G) a b = Inr (heuristic (nodes G ! a) (nodes G ! b))"
    by (simp add: heuristic_at_def node_at_def)
  from 3(2)[OF w, of "acc + heuristic (nodes G ! a) (nodes G ! b)"] h show ?case by simp
qed

section \<open>The multi-goal planner\<close>

lemma leg_unique: "leg G c g p d \<Longrightarrow> leg G c g p' d' \<Longrightarrow> p' = p \<and> d' = d"
  by (simp add: leg_def)

lemma kept_skip:
  assumes "kept G c rest best" and "\<And>p' d'. \<not> leg G c g p' d'"
  shows "kept G c (g # rest) best"
  using assms unfolding kept_def by simp

lemma kept_worse:
  assumes "kept G c rest (Some (bg, bp, bd))" and "leg G c g p0 d0" and "bd \<le> d0"
  shows "kept G c (g # rest) (Some (bg, bp, bd))"
  unfolding kept_def
proof (intro ballI allI impI)
  fix g' p' d' assume m: "g' \<in> set (g # rest)" and l: "leg G c g' p' d'"
  show "\<exists>bg' bp' bd'. Some (bg, bp, bd) = Some (bg', bp', bd') \<and> bd' \<le> d'"
  proof (cases "g' = g")
    case True
    then have "d' = d0" using leg_unique[OF assms(2)] l by blast
    then show ?thesis using assms(3) by simp
  next
    case False
    then have "g' \<in> set rest" using m by simp
    then show ?thesis using assms(1) l unfolding kept_def by blast
  qed
qed

lemma chosen_Suc:
  assumes "chosen G c rest k d" and "\<And>p' d'. leg G c g p' d' \<Longrightarrow> d < d'"
  shows "chosen G c (g # rest) (Suc k) d"
proof -
  from assms(1) have k: "k < length rest"
    and a: "\<And>g' p' d'. g' \<in> set rest \<Longrightarrow> leg G c g' p' d' \<Longrightarrow> d \<le> d'"
    and b: "\<And>g' p' d'. g' \<in> set (take k rest) \<Longrightarrow> leg G c g' p' d' \<Longrightarrow> d < d'"
    unfolding chosen_def by blast+
  have "\<forall>g' \<in> set (g # rest). \<forall>p' d'. leg G c g' p' d' \<longrightarrow> d \<le> d'"
    using a assms(2) by (simp add: less_imp_le) 
  moreover have "\<forall>g' \<in> set (take (Suc k) (g # rest)). \<forall>p' d'. leg G c g' p' d' \<longrightarrow> d < d'"
    using b assms(2) by simp
  ultimately show ?thesis using k unfolding chosen_def by simp
qed

lemma replaced_Suc:
  assumes "replaced G c rest best' res" and "\<And>p' d' d. (\<forall>bg bp bd. best' = Some (bg, bp, bd) \<longrightarrow> d < bd) \<Longrightarrow> leg G c g p' d' \<Longrightarrow> d < d'"
    and "\<And>d. (\<forall>bg bp bd. best' = Some (bg, bp, bd) \<longrightarrow> d < bd) \<Longrightarrow> (\<forall>bg bp bd. best = Some (bg, bp, bd) \<longrightarrow> d < bd)"
  shows "replaced G c (g # rest) best res"
proof -
  from assms(1) obtain k p d where r: "res = Some (rest ! k, p, d)" "leg G c (rest ! k) p d"
    "\<forall>bg bp bd. best' = Some (bg, bp, bd) \<longrightarrow> d < bd" "chosen G c rest k d"
    unfolding replaced_def by blast
  have "chosen G c (g # rest) (Suc k) d"
    using chosen_Suc[OF r(4)] assms(2)[OF r(3)] by blast
  moreover have "\<forall>bg bp bd. best = Some (bg, bp, bd) \<longrightarrow> d < bd"
    using assms(3)[OF r(3)] .
  moreover have "res = Some ((g # rest) ! Suc k, p, d)" "leg G c ((g # rest) ! Suc k) p d"
    using r(1,2) by simp_all
  ultimately show ?thesis unfolding replaced_def by blast
qed

lemma replaced_first:
  assumes "kept G c rest (Some (g, p0, d0))" and "leg G c g p0 d0"
    and "\<forall>bg bp bd. best = Some (bg, bp, bd) \<longrightarrow> d0 < bd"
  shows "replaced G c (g # rest) best (Some (g, p0, d0))"
proof -
  have "\<forall>g' \<in> set (g # rest). \<forall>p' d'. leg G c g' p' d' \<longrightarrow> d0 \<le> d'"
  proof (intro ballI allI impI)
    fix g' p' d' assume m: "g' \<in> set (g # rest)" and l: "leg G c g' p' d'"
    show "d0 \<le> d'"
    proof (cases "g' = g")
      case True
      then show ?thesis using leg_unique[OF assms(2)] l by auto
    next
      case False
      then have "g' \<in> set rest" using m by simp
      then show ?thesis using assms(1) l unfolding kept_def by blast
    qed
  qed
  then have "chosen G c (g # rest) 0 d0" unfolding chosen_def by simp
  then show ?thesis using assms(2,3) unfolding replaced_def
    by (intro exI[of _ 0] exI[of _ p0] exI[of _ d0]) simp
qed

lemma best_goal_loop_result:
  "best_goal_loop G c rem best = Some (Inr res) \<Longrightarrow>
     (res = best \<and> kept G c rem best) \<or> replaced G c rem best res"
proof (induction rem arbitrary: best)
  case Nil
  then show ?case by (simp add: kept_def)
next
  case (Cons g rest)
  show ?case
  proof (cases "astar G c g")
    case None
    then show ?thesis using Cons.prems by simp
  next
    case (Some a)
    show ?thesis
    proof (cases a)
      case (Inl err)
      then show ?thesis using Cons.prems Some by simp
    next
      case (Inr po)
      show ?thesis
      proof (cases po)
        case None
        then have noleg: "\<And>p' d'. \<not> leg G c g p' d'"
          using Some Inr by (simp add: leg_def)
        have rec: "best_goal_loop G c rest best = Some (Inr res)"
          using Cons.prems Some Inr None by simp
        from Cons.IH[OF rec] show ?thesis
        proof
          assume "res = best \<and> kept G c rest best"
          then show ?thesis using kept_skip[OF _ noleg] by blast
        next
          assume "replaced G c rest best res"
          from replaced_Suc[OF this, of g best] noleg show ?thesis by blast
        qed
      next
        case (Some p0)
        have run: "astar G c g = Some (Path p0)" using \<open>astar G c g = Some a\<close> Inr Some by simp
        show ?thesis
        proof (cases "calculatePathDistance (nodes G) p0")
          case (Inl err)
          then show ?thesis using Cons.prems run by simp
        next
          case (Inr d0)
          have l0: "leg G c g p0 d0" using run Inr by (simp add: leg_def)
          show ?thesis
          proof (cases "case best of None \<Rightarrow> True | Some (bestGoal, bestPath, bestDist) \<Rightarrow> d0 < bestDist")
            case True
            then have better: "\<forall>bg bp bd. best = Some (bg, bp, bd) \<longrightarrow> d0 < bd"
              by (auto split: option.splits)
            have rec: "best_goal_loop G c rest (Some (g, p0, d0)) = Some (Inr res)"
              using Cons.prems run Inr True by simp
            from Cons.IH[OF rec] show ?thesis
            proof
              assume "res = Some (g, p0, d0) \<and> kept G c rest (Some (g, p0, d0))"
              then show ?thesis using replaced_first[OF _ l0 better] by blast
            next
              assume r: "replaced G c rest (Some (g, p0, d0)) res"
              have "replaced G c (g # rest) best res"
              proof (rule replaced_Suc[OF r])
                fix p' d' d assume "\<forall>bg bp bd. Some (g, p0, d0) = Some (bg, bp, bd) \<longrightarrow> d < bd"
                  and "leg G c g p' d'"
                then show "d < d'" using leg_unique[OF l0] by auto
              next
                fix d assume "\<forall>bg bp bd. Some (g, p0, d0) = Some (bg, bp, bd) \<longrightarrow> d < bd"
                then have "d < d0" by simp
                then show "\<forall>bg bp bd. best = Some (bg, bp, bd) \<longrightarrow> d < bd"
                  using better by fastforce
              qed
              then show ?thesis by blast
            qed
          next
            case False
            then obtain bg bp bd where b: "best = Some (bg, bp, bd)" and le: "bd \<le> d0"
              by (auto split: option.splits)
            have rec: "best_goal_loop G c rest best = Some (Inr res)"
              using Cons.prems run Inr False by simp
            from Cons.IH[OF rec] show ?thesis
            proof
              assume "res = best \<and> kept G c rest best"
              then show ?thesis using kept_worse[OF _ l0 le] b by blast
            next
              assume r: "replaced G c rest best res"
              have "replaced G c (g # rest) best res"
              proof (rule replaced_Suc[OF r])
                fix p' d' d assume "\<forall>bg bp bd. best = Some (bg, bp, bd) \<longrightarrow> d < bd"
                  and "leg G c g p' d'"
                then show "d < d'" using leg_unique[OF l0] b le by fastforce
              next
                fix d assume "\<forall>bg bp bd. best = Some (bg, bp, bd) \<longrightarrow> d < bd"
                then show "\<forall>bg bp bd. best = Some (bg, bp, bd) \<longrightarrow> d < bd" .
              qed
              then show ?thesis by blast
            qed
          qed
        qed
      qed
    qed
  qed
qed

lemma best_goal_loop_chosen:
  assumes "best_goal_loop G c rem None = Some (Inr (Some (b, p, d)))"
  shows "\<exists>k. rem ! k = b \<and> leg G c b p d \<and> chosen G c rem k d"
proof -
  from best_goal_loop_result[OF assms] have "replaced G c rem None (Some (b, p, d))"
    by simp
  then show ?thesis unfolding replaced_def by auto
qed

lemma leg_is_path: "leg G c g p d \<Longrightarrow> is_path G c g p"
  using astar_result_struct[of G c g "Path p"] by (simp add: leg_def)

lemma multi_loop_step:
  assumes "remaining st \<noteq> []"
    and "best_goal_loop G (current_node st) (remaining st) None = Some (Inr (Some (b, p, d)))"
    and "b \<noteq> 0"
  shows "multi_loop G st =
         multi_loop G \<lparr>current_node = b, remaining = set_delete b (remaining st),
                       fullPath = fullPath st @ tl p\<rparr>"
  using assms by (subst multi_loop.simps) simp

lemma multi_inv_step:
  assumes inv: "multi_inv goals st"
    and best: "best_goal_loop G (current_node st) (remaining st) None = Some (Inr (Some (b, p, d)))"
  shows "multi_inv goals \<lparr>current_node = b, remaining = set_delete b (remaining st),
                       fullPath = fullPath st @ tl p\<rparr>"
proof -
  from best_goal_loop_chosen[OF best] obtain k where k: "remaining st ! k = b"
    "leg G (current_node st) b p d" "chosen G (current_node st) (remaining st) k d"
    by blast
  have path: "p \<noteq> []" "hd p = current_node st" "last p = b"
    using leg_is_path[OF k(2)] unfolding is_path_def by simp_all
  from inv have a: "set goals \<subseteq> set (remaining st) \<union> set (fullPath st)"
    and b: "set (remaining st) \<subseteq> set goals"
    and c: "fullPath st \<noteq> []" and d: "last (fullPath st) = current_node st"
    unfolding multi_inv_def by blast+
  have lst: "last (fullPath st @ tl p) = b"
  proof (cases "tl p = []")
    case True
    then have "p = [hd p]" using path(1) by (cases p) simp_all
    then have "last p = hd p" by (metis last.simps)
    then show ?thesis using True d path by simp
  next
    case False
    then have "last (tl p) = last p" using path(1) by (simp add: last_tl)
    then show ?thesis using False path by simp
  qed
  have ne: "fullPath st @ tl p \<noteq> []" using c by simp
  have bin: "b \<in> set (fullPath st @ tl p)"
    using lst ne last_in_set by metis
  have "set goals \<subseteq> set (set_delete b (remaining st)) \<union> set (fullPath st @ tl p)"
    using a bin by auto
  moreover have "set (set_delete b (remaining st)) \<subseteq> set goals"
    using b by auto
  ultimately show ?thesis using ne lst unfolding multi_inv_def by simp
qed

lemma multi_post_step:
  assumes IH: "\<And>G st r. ml G st = Some r \<Longrightarrow> multi_post goals G st r"
    and body: "(if remaining st = [] then Some (Inr st)
      else
        (case best_goal_loop G (current_node st) (remaining st) None of
           None \<Rightarrow> None
         | Some (Inl err) \<Rightarrow> Some (Inl err)
         | Some (Inr None) \<Rightarrow> Some (Inr st)
         | Some (Inr (Some (bestGoal, bestPath, bestDist))) \<Rightarrow>
             if bestGoal = 0 then Some (Inr st)
             else ml G
                    \<lparr>current_node = bestGoal,
                     remaining = set_delete bestGoal (remaining st),
                     fullPath = fullPath st @ tl bestPath\<rparr>)) = Some r"
  shows "multi_post goals G st r"
proof (cases "remaining st = []")
  case True
  then have "r = Inr st" using body by simp
  then show ?thesis by (simp add: multi_post_def)
next
  case False
  then have body': "(case best_goal_loop G (current_node st) (remaining st) None of
           None \<Rightarrow> None
         | Some (Inl err) \<Rightarrow> Some (Inl err)
         | Some (Inr None) \<Rightarrow> Some (Inr st)
         | Some (Inr (Some (bestGoal, bestPath, bestDist))) \<Rightarrow>
             if bestGoal = 0 then Some (Inr st)
             else ml G
                    \<lparr>current_node = bestGoal,
                     remaining = set_delete bestGoal (remaining st),
                     fullPath = fullPath st @ tl bestPath\<rparr>) = Some r"
    using body by simp
  show ?thesis
  proof (cases "best_goal_loop G (current_node st) (remaining st) None")
    case None
    then show ?thesis using body' by simp
  next
    case (Some a)
    show ?thesis
    proof (cases a)
      case (Inl err)
      then have "r = Inl err" using body' Some by simp
      then show ?thesis by (simp add: multi_post_def)
    next
      case (Inr bo)
      show ?thesis
      proof (cases bo)
        case None
        then have "r = Inr st" using body' Some Inr by simp
        then show ?thesis by (simp add: multi_post_def)
      next
        case (Some t)
        obtain b p d where t: "t = (b, p, d)" by (cases t) auto
        have best: "best_goal_loop G (current_node st) (remaining st) None = Some (Inr (Some (b, p, d)))"
          using \<open>best_goal_loop G (current_node st) (remaining st) None = Some a\<close> Inr Some t by simp
        show ?thesis
        proof (cases "b = 0")
          case True
          then have "r = Inr st" using body' best by simp
          then show ?thesis by (simp add: multi_post_def)
        next
          case False
          let ?st1 = "\<lparr>current_node = b, remaining = set_delete b (remaining st),
                       fullPath = fullPath st @ tl p\<rparr>"
          have "ml G ?st1 = Some r" using body' best False by simp
          from IH[OF this] have post1: "multi_post goals G ?st1 r" .
          show ?thesis
            unfolding multi_post_def
          proof (intro allI impI)
            fix st' assume r: "r = Inr st'"
            from post1 r have p1: "prefix (fullPath ?st1) (fullPath st')"
              and i1: "multi_inv goals ?st1 \<longrightarrow> multi_inv goals st'"
              unfolding multi_post_def by blast+
            have "prefix (fullPath st) (fullPath ?st1)" by simp
            then have "prefix (fullPath st) (fullPath st')"
              using p1 prefix_order.order_trans by blast
            moreover have "multi_inv goals st \<longrightarrow> multi_inv goals st'"
              using i1 multi_inv_step[OF _ best] by blast
            ultimately show "prefix (fullPath st) (fullPath st') \<and> (multi_inv goals st \<longrightarrow> multi_inv goals st')"
              by blast
          qed
        qed
      qed
    qed
  qed
qed

lemma multi_loop_post:
  assumes "multi_loop G st = Some r"
  shows "multi_post goals G st r"
  by (rule multi_loop.raw_induct[where P = "multi_post goals", OF _ assms])
    (rule multi_post_step)

lemma set_new_Set: "set (new_Set vs) = set vs"
proof -
  have "set (foldl (\<lambda>s v. set_add v s) acc vs) = set acc \<union> set vs" for acc
    by (induction vs arbitrary: acc) auto
  then show ?thesis by (simp add: new_Set_def)
qed

lemma multi_inv_init: "multi_inv goals (multi_init start goals)"
  by (auto simp: multi_inv_def multi_init_def set_new_Set)

lemma heuristic_upright: "node_x a = node_x b \<Longrightarrow> heuristic a b = \<bar>node_y a - node_y b\<bar>"
  by (simp add: heuristic_def Let_def)


lemma scenario_run_02: "astar scenario 0 2 = Some (Path [0, Suc 0, 2])"
  by (simp add: scenario_def run_simps heuristic_upright)






section \<open>The search terminates\<close>

lemma weight_sums_list:
  assumes "c \<in> weight_sums W" and "\<forall>w \<in> W. 0 \<le> w"
  shows "\<exists>ws. set ws \<subseteq> {w \<in> W. 0 < w} \<and> c = sum_list ws"
  using assms(1)
proof (induction rule: weight_sums.induct)
  case zero
  have "set [] \<subseteq> {w \<in> W. 0 < w} \<and> (0::real) = sum_list []" by simp
  then show ?case by blast
next
  case (add c w)
  then obtain ws where ws: "set ws \<subseteq> {w \<in> W. 0 < w}" "c = sum_list ws" by blast
  show ?case
  proof (cases "0 < w")
    case True
    then have "set (w # ws) \<subseteq> {w \<in> W. 0 < w} \<and> c + w = sum_list (w # ws)"
      using ws add.hyps(2) by simp
    then show ?thesis by blast
  next
    case False
    then have "w = 0" using assms(2) add.hyps(2) by fastforce
    then show ?thesis using ws by auto
  qed
qed

lemma sum_list_lower:
  fixes ws :: "real list"
  assumes "\<forall>w \<in> set ws. m \<le> w"
  shows "m * real (length ws) \<le> sum_list ws"
  using assms by (induction ws) (auto simp: algebra_simps)

lemma finite_sums_below:
  assumes fin: "finite W" and nn: "\<forall>w \<in> W. 0 \<le> w"
  shows "finite {c \<in> weight_sums W. c < v}"
proof -
  let ?P = "{w \<in> W. 0 < w}"
  have finP: "finite ?P" using fin by simp
  show ?thesis
  proof (cases "?P = {}")
    case True
    have "{c \<in> weight_sums W. c < v} \<subseteq> {0}"
    proof
      fix c assume "c \<in> {c \<in> weight_sums W. c < v}"
      then have "c \<in> weight_sums W" by simp
      from weight_sums_list[OF this nn] obtain ws where "set ws \<subseteq> ?P" "c = sum_list ws"
        by blast
      then have "ws = []" using True by (metis set_empty subset_empty)
      then show "c \<in> {0}" using \<open>c = sum_list ws\<close> by simp
    qed
    then show ?thesis using finite_subset by blast
  next
    case False
    define m where "m = Min ?P"
    have m_in: "m \<in> ?P" unfolding m_def using finP False by (rule Min_in)
    then have m_pos: "0 < m" by simp
    have m_le: "\<And>w. w \<in> ?P \<Longrightarrow> m \<le> w" unfolding m_def using finP by simp
    define K where "K = nat \<lfloor>v / m\<rfloor>"
    have "{c \<in> weight_sums W. c < v} \<subseteq> sum_list ` {ws. set ws \<subseteq> ?P \<and> length ws \<le> K}"
    proof
      fix c assume "c \<in> {c \<in> weight_sums W. c < v}"
      then have c: "c \<in> weight_sums W" "c < v" by simp_all
      from weight_sums_list[OF c(1) nn] obtain ws where ws: "set ws \<subseteq> ?P" "c = sum_list ws"
        by blast
      have "m * real (length ws) \<le> sum_list ws"
        using ws(1) m_le by (intro sum_list_lower) blast
      then have "m * real (length ws) < v" using ws(2) c(2) by simp
      then have "real (length ws) < v / m"
        using m_pos by (simp add: pos_less_divide_eq mult.commute)
      then have "int (length ws) \<le> \<lfloor>v / m\<rfloor>"
        by (simp add: le_floor_iff)
      then have "length ws \<le> K" unfolding K_def by linarith
      then show "c \<in> sum_list ` {ws. set ws \<subseteq> ?P \<and> length ws \<le> K}"
        using ws by blast
    qed
    moreover have "finite (sum_list ` {ws. set ws \<subseteq> ?P \<and> length ws \<le> K})"
      using finite_lists_length_le[OF finP] by (rule finite_imageI)
    ultimately show ?thesis using finite_subset by blast
  qed
qed

lemma rank_less:
  assumes "finite W" and "\<forall>w \<in> W. 0 \<le> w" and "c \<in> weight_sums W" and "c < v"
  shows "rank W c < rank W v"
proof -
  have "{x \<in> weight_sums W. x < c} \<subset> {x \<in> weight_sums W. x < v}"
    using assms(3,4) by auto
  then show ?thesis
    unfolding rank_def using finite_sums_below[OF assms(1,2)] psubset_card_mono by blast
qed

lemma step_weight_nonneg: "weights_nonneg G \<Longrightarrow> 0 \<le> step_weight (edges G) a b"
proof (cases "find_edge (edges G) a b")
  case None
  then show ?thesis by (simp add: step_weight_def)
next
  case (Some e)
  assume "weights_nonneg G"
  then have "0 \<le> weight e"
    using find_edge_mem[OF Some] unfolding weights_nonneg_def by blast
  then show ?thesis using Some by (simp add: step_weight_def)
qed

lemma ancestor_score:
  assumes nn: "weights_nonneg G" and inv: "inv_tree G start st"
    and anc: "(a, b) \<in> (parent_rel (cameFrom st))\<^sup>*"
  shows "\<forall>gb. gScore st b = Some gb \<longrightarrow> (\<exists>ga. gScore st a = Some ga \<and> ga \<le> gb)"
  using anc
proof (induction rule: rtrancl_induct)
  case base
  then show ?case by simp
next
  case (step y z)
  then have "cameFrom st z = Some y" by (simp add: parent_rel_def)
  then obtain gy gz where g: "gScore st y = Some gy" "gScore st z = Some gz"
    "gy + step_weight (edges G) y z \<le> gz"
    using inv unfolding inv_tree_def by blast
  have "gy \<le> gz" using g(3) step_weight_nonneg[OF nn, of y z] by linarith
  then show ?case using step.IH g by fastforce
qed

lemma relax_one_tree:
  assumes run: "relax_one G goal c n st = Inr st'" and nn: "weights_nonneg G"
    and inv: "inv_tree G start st"
  shows "inv_tree G start st'"
  using run
proof (cases rule: relax_one_cases)
  case skip
  then show ?thesis using inv by simp
next
  case (update e gc h)
  define w where "w = weight e"
  have sw: "step_weight (edges G) c n = w"
    using update(1) by (simp add: step_weight_def w_def)
  have w0: "0 \<le> w" using step_weight_nonneg[OF nn, of c n] sw by simp
  from inv have g0: "gScore st start = Some 0" and cf0: "cameFrom st start = None"
    and pos: "\<And>m v. gScore st m = Some v \<Longrightarrow> 0 \<le> v"
    and par: "\<And>m p. cameFrom st m = Some p \<Longrightarrow>
           (\<exists>gp gm. gScore st p = Some gp \<and> gScore st m = Some gm
              \<and> gp + step_weight (edges G) p m \<le> gm)"
    and wfr: "wf (parent_rel (cameFrom st))"
    unfolding inv_tree_def by blast+
  have gc0: "0 \<le> gc" using pos update(2) by blast
  have less: "\<And>gn. gScore st n = Some gn \<Longrightarrow> gc + w < gn"
    using update(3) w_def by blast
  have n_start: "n \<noteq> start"
  proof
    assume "n = start"
    then have "gc + w < 0" using less g0 by blast
    then show False using gc0 w0 by linarith
  qed
  have n_c: "n \<noteq> c"
  proof
    assume "n = c"
    then have "gc + w < gc" using less update(2) by blast
    then show False using w0 by linarith
  qed
  have g': "gScore st' = (gScore st)(n \<mapsto> gc + w)"
    and cf': "cameFrom st' = (cameFrom st)(n \<mapsto> c)"
    by (simp_all add: update(5) w_def)
  have 1: "gScore st' start = Some 0" "cameFrom st' start = None"
    using g0 cf0 n_start g' cf' by simp_all
  have 2: "\<forall>m v. gScore st' m = Some v \<longrightarrow> 0 \<le> v"
  proof (intro allI impI)
    fix m v assume "gScore st' m = Some v"
    then show "0 \<le> v"
      using g' pos[of m v] gc0 w0 by (cases "m = n") simp_all
  qed
  have 3: "\<forall>m p. cameFrom st' m = Some p \<longrightarrow>
           (\<exists>gp gm. gScore st' p = Some gp \<and> gScore st' m = Some gm
              \<and> gp + step_weight (edges G) p m \<le> gm)"
  proof (intro allI impI)
    fix m p assume mp: "cameFrom st' m = Some p"
    show "\<exists>gp gm. gScore st' p = Some gp \<and> gScore st' m = Some gm
              \<and> gp + step_weight (edges G) p m \<le> gm"
    proof (cases "m = n")
      case True
      then have "p = c" using mp cf' by simp
      then show ?thesis using True g' n_c update(2) sw by simp
    next
      case False
      then have "cameFrom st m = Some p" using mp cf' by simp
      from par[OF this] obtain gp gm where o: "gScore st p = Some gp" "gScore st m = Some gm"
        "gp + step_weight (edges G) p m \<le> gm" by blast
      show ?thesis
      proof (cases "p = n")
        case True
        then have "gc + w < gp" using less o(1) by blast
        then have "gc + w + step_weight (edges G) p m \<le> gm" using o(3) by linarith
        then show ?thesis using True False g' o(2) by simp
      next
        case pn: False
        then show ?thesis using False g' o by simp
      qed
    qed
  qed
  have 4: "wf (parent_rel (cameFrom st'))"
  proof -
    define r0 where "r0 = {(p, m). cameFrom st m = Some p \<and> m \<noteq> n}"
    have sub: "r0 \<subseteq> parent_rel (cameFrom st)" by (auto simp: r0_def parent_rel_def)
    then have wf0: "wf r0" using wfr wf_subset by blast
    have "(n, c) \<notin> r0\<^sup>*"
    proof
      assume "(n, c) \<in> r0\<^sup>*"
      then have "(n, c) \<in> (parent_rel (cameFrom st))\<^sup>*"
        using sub rtrancl_mono by blast
      from ancestor_score[OF nn inv this] update(2)
      obtain gn where "gScore st n = Some gn" "gn \<le> gc" by blast
      then show False using less[of gn] w0 by linarith
    qed
    then have "wf (insert (c, n) r0)" using wf0 by (simp add: wf_insert)
    moreover have "parent_rel (cameFrom st') = insert (c, n) r0"
      unfolding cf' by (auto simp: parent_rel_def r0_def split: if_splits)
    ultimately show ?thesis by simp
  qed
  show ?thesis unfolding inv_tree_def using 1 2 3 4 by blast
qed

lemma relax_tree:
  "relax G goal c nbs st = Inr st' \<Longrightarrow> weights_nonneg G \<Longrightarrow> inv_tree G start st
     \<Longrightarrow> inv_tree G start st'"
proof (induction nbs arbitrary: st)
  case Nil
  then show ?case by simp
next
  case (Cons n nbs)
  from Cons.prems(1) obtain st1 where one: "relax_one G goal c n st = Inr st1"
    and rest: "relax G goal c nbs st1 = Inr st'"
    by (simp split: sum.splits)
  from relax_one_tree[OF one Cons.prems(2,3)] have "inv_tree G start st1" .
  from Cons.IH[OF rest Cons.prems(2) this] show ?case .
qed

lemma finite_universe: "finite (universe G start)"
  by (simp add: universe_def)

lemma find_edge_universe:
  assumes "find_edge (edges G) c n = Some e"
  shows "n \<in> universe G start \<and> weight e \<in> weight ` set (edges G)"
proof -
  from find_edge_mem[OF assms] have m: "e \<in> set (edges G)"
    and ends: "(edge_from e = c \<and> edge_to e = n) \<or> (edge_to e = c \<and> edge_from e = n)"
    by blast+
  have "n \<in> edge_from ` set (edges G) \<union> edge_to ` set (edges G)"
    using m ends by (metis UnI1 UnI2 imageI)
  then show ?thesis using m by (simp add: universe_def)
qed

lemma relax_one_meas:
  assumes run: "relax_one G goal c n st = Inr st'" and inv: "inv_meas G start st"
  shows "inv_meas G start st'"
  using run
proof (cases rule: relax_one_cases)
  case skip
  then show ?thesis using inv by simp
next
  case (update e gc h)
  have g': "gScore st' = (gScore st)(n \<mapsto> gc + weight e)"
    by (simp add: update(5))
  from inv have d: "dom (gScore st) \<subseteq> universe G start"
    and s: "\<And>m v. gScore st m = Some v \<Longrightarrow> v \<in> weight_sums (weight ` set (edges G))"
    unfolding inv_meas_def by blast+
  note u = find_edge_universe[OF update(1), of start]
  have "gc + weight e \<in> weight_sums (weight ` set (edges G))"
    using s[OF update(2)] u by (intro weight_sums.add) simp_all
  then have "\<forall>m v. gScore st' m = Some v \<longrightarrow> v \<in> weight_sums (weight ` set (edges G))"
    using s g' by (simp split: if_splits)
  moreover have "dom (gScore st') \<subseteq> universe G start"
    using d u g' by simp
  ultimately show ?thesis unfolding inv_meas_def by blast
qed

lemma relax_meas:
  "relax G goal c nbs st = Inr st' \<Longrightarrow> inv_meas G start st \<Longrightarrow> inv_meas G start st'"
proof (induction nbs arbitrary: st)
  case Nil
  then show ?case by simp
next
  case (Cons n nbs)
  from Cons.prems(1) obtain st1 where one: "relax_one G goal c n st = Inr st1"
    and rest: "relax G goal c nbs st1 = Inr st'"
    by (simp split: sum.splits)
  from relax_one_meas[OF one Cons.prems(2)] have "inv_meas G start st1" .
  from Cons.IH[OF rest this] show ?case .
qed

lemma relax_one_score_order:
  assumes run: "relax_one G goal c n st = Inr st'" and nn: "weights_nonneg G"
    and inv: "inv_meas G start st"
  shows "st' = st \<or> (st', st) \<in> score_order G start"
  using run
proof (cases rule: relax_one_cases)
  case skip
  then show ?thesis by simp
next
  case (update e gc h)
  let ?W = "weight ` set (edges G)"
  have g': "gScore st' = (gScore st)(n \<mapsto> gc + weight e)"
    by (simp add: update(5))
  from inv have d: "dom (gScore st) \<subseteq> universe G start"
    and s: "\<And>m v. gScore st m = Some v \<Longrightarrow> v \<in> weight_sums ?W"
    unfolding inv_meas_def by blast+
  note u = find_edge_universe[OF update(1), of start]
  have new: "gc + weight e \<in> weight_sums ?W"
    using s[OF update(2)] u by (intro weight_sums.add) simp_all
  have finW: "finite ?W" by simp
  have nnW: "\<forall>w \<in> ?W. 0 \<le> w" using nn unfolding weights_nonneg_def by blast
  have "(st', st) \<in> score_order G start"
  proof (cases "gScore st n")
    case None
    have e: "universe G start - dom (gScore st') = (universe G start - dom (gScore st)) - {n}"
      using g' by auto
    have m: "n \<in> universe G start - dom (gScore st)"
      using u None by blast
    have f: "finite (universe G start - dom (gScore st))"
      using finite_universe by blast
    have "unscored G start st' < unscored G start st"
      unfolding unscored_def e using card_Diff1_less[OF f m] .
    then show ?thesis by (simp add: score_order_def)
  next
    case (Some gn)
    then have lt: "gc + weight e < gn" using update(3) by blast
    have "dom (gScore st') = dom (gScore st)" using g' Some by auto
    then have same: "unscored G start st' = unscored G start st"
      by (simp add: unscored_def)
    have nU: "n \<in> universe G start" using u by blast
    have rn: "node_rank G st' n < node_rank G st n"
      using rank_less[OF finW nnW new lt] g' Some by (simp add: node_rank_def)
    have ro: "\<And>m. m \<noteq> n \<Longrightarrow> node_rank G st' m = node_rank G st m"
      using g' by (simp add: node_rank_def)
    have "rank_sum G start st' < rank_sum G start st"
      unfolding rank_sum_def
    proof (rule sum_strict_mono_ex1)
      show "finite (universe G start)" by (rule finite_universe)
      show "\<forall>m \<in> universe G start. node_rank G st' m \<le> node_rank G st m"
        using rn ro by (metis less_imp_le order_refl)
      show "\<exists>a \<in> universe G start. node_rank G st' a < node_rank G st a"
        using nU rn by blast
    qed
    then show ?thesis using same by (simp add: score_order_def)
  qed
  then show ?thesis by simp
qed

lemma trans_score_order: "trans (score_order G start)"
  unfolding score_order_def
  by (intro trans_inv_image trans_lex_prod trans_less_than)

lemma relax_score_order:
  "relax G goal c nbs st = Inr st' \<Longrightarrow> weights_nonneg G \<Longrightarrow> inv_meas G start st
     \<Longrightarrow> st' = st \<or> (st', st) \<in> score_order G start"
proof (induction nbs arbitrary: st)
  case Nil
  then show ?case by simp
next
  case (Cons n nbs)
  from Cons.prems(1) obtain st1 where one: "relax_one G goal c n st = Inr st1"
    and rest: "relax G goal c nbs st1 = Inr st'"
    by (simp split: sum.splits)
  have i1: "inv_meas G start st1" using relax_one_meas[OF one Cons.prems(3)] .
  from relax_one_score_order[OF one Cons.prems(2,3)]
  have a: "st1 = st \<or> (st1, st) \<in> score_order G start" .
  from Cons.IH[OF rest Cons.prems(2) i1]
  have b: "st' = st1 \<or> (st', st1) \<in> score_order G start" .
  from a b show ?case
    using trans_score_order[of G start] by (meson transD)
qed

lemma wf_search_order: "wf (search_order G start)"
  unfolding search_order_def
  by (intro wf_inv_image wf_lex_prod wf_less_than)

lemma search_order_score:
  "(st', st) \<in> score_order G start \<Longrightarrow> (st', st) \<in> search_order G start"
  by (auto simp: score_order_def search_order_def)

lemma search_order_open:
  assumes "gScore st' = gScore st" and "length (openSet st') < length (openSet st)"
  shows "(st', st) \<in> search_order G start"
  using assms by (simp add: search_order_def unscored_def rank_sum_def node_rank_def)

lemma score_order_gScore:
  assumes "(st', st0) \<in> score_order G start" and "gScore st0 = gScore st"
  shows "(st', st) \<in> score_order G start"
  using assms by (simp add: score_order_def unscored_def rank_sum_def node_rank_def)

lemma reconstruct_loop_terminates:
  assumes "wf (parent_rel cf)"
  shows "\<exists>r. reconstruct_loop cf c path = Some r"
  using assms
proof (induction c arbitrary: path rule: wf_induct_rule)
  case (less c)
  show ?case
  proof (cases "cf c")
    case None
    then show ?thesis by (subst reconstruct_loop.simps) simp
  next
    case (Some p)
    then have "(p, c) \<in> parent_rel cf" by (simp add: parent_rel_def)
    from less[OF this, of "p # path"] obtain r where "reconstruct_loop cf p (p # path) = Some r"
      by blast
    then show ?thesis using Some by (subst reconstruct_loop.simps) simp
  qed
qed

lemma length_set_delete:
  "c \<in> set s \<Longrightarrow> length (set_delete c s) < length s"
  unfolding set_delete_def by (simp add: length_removeAll_less)

lemma astar_loop_terminates:
  assumes nn: "weights_nonneg G"
  shows "inv_tree G start st \<Longrightarrow> inv_meas G start st \<Longrightarrow> \<exists>r. astar_loop G goal st = Some r"
proof (induction st rule: wf_induct_rule[OF wf_search_order[of G start]])
  case (1 st)
  show ?case
  proof (cases "openSet st")
    case Nil
    then show ?thesis by (subst astar_loop.simps) simp
  next
    case (Cons v vs)
    define c where "c = select_current (fScore st) v vs"
    have c_open: "c \<in> set (openSet st)"
      unfolding c_def Cons by (rule select_current_mem)
    show ?thesis
    proof (cases "c = goal")
      case True
      have "wf (parent_rel (cameFrom st))" using "1.prems"(1) unfolding inv_tree_def by blast
      from reconstruct_loop_terminates[OF this, of c "[c]"]
      obtain p where "reconstructPath (cameFrom st) c = Some p"
        unfolding reconstructPath_def by blast
      then show ?thesis
        using Cons c_def True by (subst astar_loop.simps) (simp add: Let_def)
    next
      case False
      let ?st0 = "st\<lparr>openSet := set_delete c (openSet st)\<rparr>"
      have eq: "astar_loop G goal st =
          (case relax G goal c (neighbors (edges G) c) ?st0 of
                Inl err \<Rightarrow> Some (Inl err)
              | Inr st' \<Rightarrow> astar_loop G goal st')"
        using Cons c_def False by (subst astar_loop.simps) (simp add: Let_def)
      have t0: "inv_tree G start ?st0" using "1.prems"(1) by (simp add: inv_tree_def)
      have m0: "inv_meas G start ?st0" using "1.prems"(2) by (simp add: inv_meas_def)
      have lt0: "(?st0, st) \<in> search_order G start"
        using length_set_delete[OF c_open] by (intro search_order_open) simp_all
      show ?thesis
      proof (cases "relax G goal c (neighbors (edges G) c) ?st0")
        case (Inl err)
        then show ?thesis using eq by simp
      next
        case (Inr st')
        have t': "inv_tree G start st'" using relax_tree[OF Inr nn t0] .
        have m': "inv_meas G start st'" using relax_meas[OF Inr m0] .
        have "(st', st) \<in> search_order G start"
        proof (cases "st' = ?st0")
          case True
          then show ?thesis using lt0 by simp
        next
          case False
          then have "(st', ?st0) \<in> score_order G start"
            using relax_score_order[OF Inr nn m0] by blast
          then have "(st', st) \<in> score_order G start"
            by (rule score_order_gScore) simp
          then show ?thesis by (rule search_order_score)
        qed
        from "1.IH"[OF this t' m'] show ?thesis using eq Inr by simp
      qed
    qed
  qed
qed

lemma init_tree: "inv_tree G start (astar_init start h)"
  by (simp add: inv_tree_def astar_init_def parent_rel_def)

lemma init_meas: "inv_meas G start (astar_init start h)"
  by (auto simp: inv_meas_def astar_init_def universe_def weight_sums.zero split: if_splits)

lemma astar_terminates: "weights_nonneg G \<Longrightarrow> \<exists>r. astar G start goal = Some r"
  unfolding astar_def
  using astar_loop_terminates[OF _ init_tree init_meas]
  by (cases "heuristic_at (nodes G) start goal") auto

lemma relax_one_lowers_score:
  assumes "relax_one G goal c n st = Inr st'" and "st' \<noteq> st" and "gScore st n = Some gn"
  shows "\<exists>gn'. gScore st' n = Some gn' \<and> gn' < gn \<and> openSet st' = set_add n (openSet st)"
  using assms(1)
proof (cases rule: relax_one_cases)
  case skip
  then show ?thesis using assms(2) by simp
next
  case (update e gc h)
  then show ?thesis using assms(3) by simp
qed

text \<open>
  C10: on every graph (its edge list is finite) with non-negative edge weights the search
  returns for every start and goal, with a path, with \<open>null\<close> or by throwing. Whenever a
  node that already has an accumulated cost is put into the open set again, its
  accumulated cost has strictly decreased.
\<close>

theorem astar_terminates_nonneg:
  assumes "weights_nonneg G"
  shows "(\<exists>r. astar G start goal = Some r)
    \<and> (relax_one G goal c n st = Inr st' \<and> st' \<noteq> st \<and> gScore st n = Some gn \<longrightarrow>
         (\<exists>gn'. gScore st' n = Some gn' \<and> gn' < gn \<and> openSet st' = set_add n (openSet st)))"
  using astar_terminates[OF assms] relax_one_lowers_score by blast

lemma scenario_first_expansion:
  "heuristic_at (nodes scenario) 0 2 = Inr (sqrt 200)
   \<and> relax scenario 2 0 (neighbors (edges scenario) 0)
        ((astar_init 0 (sqrt 200))\<lparr>openSet := set_delete 0 [0]\<rparr>) = Inr scenario_opened"
  by (simp add: scenario_def scenario_opened_def run_simps heuristic_def heuristic_upright)

lemma scenario_second_expansion:
  "relax_one scenario 2 1 2 (scenario_opened\<lparr>openSet := set_delete 1 [1, 2]\<rparr>) = Inr scenario_relaxed"
  by (simp add: scenario_def scenario_opened_def scenario_relaxed_def run_simps heuristic_upright)

theorem astar_terminates_nonneg_witness:
  "weights_nonneg scenario
   \<and> astar scenario 0 2 = Some (Path [0, 1, 2])
   \<and> relax_one scenario 2 1 2 (scenario_opened\<lparr>openSet := set_delete 1 [1, 2]\<rparr>) = Inr scenario_relaxed
   \<and> gScore (scenario_opened\<lparr>openSet := set_delete 1 [1, 2]\<rparr>) 2 = Some 25
   \<and> gScore scenario_relaxed 2 = Some 20"
proof -
  have nn: "weights_nonneg scenario"
    by (simp add: weights_nonneg_def scenario_def mk_edge_def)
  have ne: "scenario_relaxed \<noteq> scenario_opened\<lparr>openSet := set_delete 1 [1, 2]\<rparr>"
  proof
    assume "scenario_relaxed = scenario_opened\<lparr>openSet := set_delete 1 [1, 2]\<rparr>"
    then have "gScore scenario_relaxed 2 = gScore (scenario_opened\<lparr>openSet := set_delete 1 [1, 2]\<rparr>) 2"
      by simp
    then show False by (simp add: scenario_relaxed_def scenario_opened_def)
  qed
  have g: "gScore (scenario_opened\<lparr>openSet := set_delete 1 [1, 2]\<rparr>) 2 = Some 25"
    by (simp add: scenario_opened_def)
  have g': "gScore scenario_relaxed 2 = Some 20"
    by (simp add: scenario_relaxed_def)
  from astar_terminates_nonneg [OF nn, of 0 2 1 2
      "scenario_opened\<lparr>openSet := set_delete 1 [1, 2]\<rparr>" scenario_relaxed 25]
    scenario_second_expansion ne g
  have "\<exists>r. astar scenario 0 2 = Some r" by blast
  moreover have "astar scenario 0 2 = Some (Path [0, 1, 2])"
    using scenario_run_02 by simp
  ultimately show ?thesis using nn scenario_second_expansion g g' by blast
qed

section \<open>The search finds a path exactly when there is one\<close>

lemma improves_refl: "improves st st"
  by (simp add: improves_def)

lemma improves_trans:
  assumes "improves st st1" and "improves st1 st2"
  shows "improves st st2"
proof -
  from assms(1) have a1: "\<And>n v. gScore st n = Some v \<Longrightarrow> \<exists>v'. gScore st1 n = Some v' \<and> v' \<le> v"
    and b1: "set (openSet st) \<subseteq> set (openSet st1)"
    and e1: "\<And>n. gScore st1 n \<noteq> gScore st n \<Longrightarrow> n \<in> set (openSet st1)"
    unfolding improves_def by blast+
  from assms(2) have a2: "\<And>n v. gScore st1 n = Some v \<Longrightarrow> \<exists>v'. gScore st2 n = Some v' \<and> v' \<le> v"
    and b2: "set (openSet st1) \<subseteq> set (openSet st2)"
    and e2: "\<And>n. gScore st2 n \<noteq> gScore st1 n \<Longrightarrow> n \<in> set (openSet st2)"
    unfolding improves_def by blast+
  have "\<forall>n v. gScore st n = Some v \<longrightarrow> (\<exists>v'. gScore st2 n = Some v' \<and> v' \<le> v)"
  proof (intro allI impI)
    fix n v assume "gScore st n = Some v"
    from a1[OF this] obtain v1 where v1: "gScore st1 n = Some v1" "v1 \<le> v" by blast
    from a2[OF v1(1)] obtain v2 where "gScore st2 n = Some v2" "v2 \<le> v1" by blast
    then show "\<exists>v'. gScore st2 n = Some v' \<and> v' \<le> v" using v1(2) by auto
  qed
  moreover have "set (openSet st) \<subseteq> set (openSet st2)" using b1 b2 by blast
  moreover have "\<forall>n. gScore st2 n \<noteq> gScore st n \<longrightarrow> n \<in> set (openSet st2)"
  proof (intro allI impI)
    fix n assume d: "gScore st2 n \<noteq> gScore st n"
    show "n \<in> set (openSet st2)"
    proof (cases "gScore st2 n = gScore st1 n")
      case True
      then have "gScore st1 n \<noteq> gScore st n" using d by simp
      from e1[OF this] b2 show ?thesis by blast
    next
      case False
      from e2[OF this] show ?thesis .
    qed
  qed
  ultimately show ?thesis unfolding improves_def by blast
qed

lemma relax_one_improves:
  assumes "relax_one G goal c n st = Inr st'"
  shows "improves st st'"
  using assms
proof (cases rule: relax_one_cases)
  case skip
  then show ?thesis by (simp add: improves_refl)
next
  case (update e gc h)
  have g': "gScore st' = (gScore st)(n \<mapsto> gc + weight e)"
    and o': "set (openSet st') = insert n (set (openSet st))"
    by (simp_all add: update(5))
  have "\<forall>m v. gScore st m = Some v \<longrightarrow> (\<exists>v'. gScore st' m = Some v' \<and> v' \<le> v)"
  proof (intro allI impI)
    fix m v assume mv: "gScore st m = Some v"
    show "\<exists>v'. gScore st' m = Some v' \<and> v' \<le> v"
    proof (cases "m = n")
      case True
      then have "gc + weight e < v" using update(3) mv by blast
      then show ?thesis using True g' by simp
    next
      case False
      then show ?thesis using mv g' by simp
    qed
  qed
  moreover have "set (openSet st) \<subseteq> set (openSet st')" using o' by blast
  moreover have "\<forall>m. gScore st' m \<noteq> gScore st m \<longrightarrow> m \<in> set (openSet st')"
    using g' o' by (simp split: if_splits)
  ultimately show ?thesis unfolding improves_def by blast
qed

lemma relax_improves:
  "relax G goal c nbs st = Inr st' \<Longrightarrow> improves st st'"
proof (induction nbs arbitrary: st)
  case Nil
  then show ?case by (simp add: improves_refl)
next
  case (Cons n nbs)
  from Cons.prems(1) obtain st1 where one: "relax_one G goal c n st = Inr st1"
    and rest: "relax G goal c nbs st1 = Inr st'"
    by (simp split: sum.splits)
  from improves_trans[OF relax_one_improves[OF one] Cons.IH[OF rest]] show ?case .
qed

lemma relax_one_scores:
  assumes "relax_one G goal c n st = Inr st'"
  shows "gScore st' n \<noteq> None"
  using assms by (cases rule: relax_one_cases) simp_all

lemma relax_scores:
  "relax G goal c nbs st = Inr st' \<Longrightarrow> \<forall>m \<in> set nbs. gScore st' m \<noteq> None"
proof (induction nbs arbitrary: st)
  case Nil
  then show ?case by simp
next
  case (Cons n nbs)
  from Cons.prems(1) obtain st1 where one: "relax_one G goal c n st = Inr st1"
    and rest: "relax G goal c nbs st1 = Inr st'"
    by (simp split: sum.splits)
  have "gScore st1 n \<noteq> None" using relax_one_scores[OF one] .
  then have "gScore st' n \<noteq> None"
    using relax_improves[OF rest] unfolding improves_def by fastforce
  then show ?case using Cons.IH[OF rest] by simp
qed

lemma closed_step:
  assumes inv: "inv_closed G goal st" and c_open: "c \<in> set (openSet st)" and ng: "c \<noteq> goal"
    and run: "relax G goal c (neighbors (edges G) c) (st\<lparr>openSet := set_delete c (openSet st)\<rparr>) = Inr st'"
  shows "inv_closed G goal st'"
proof -
  let ?st0 = "st\<lparr>openSet := set_delete c (openSet st)\<rparr>"
  from inv have cl: "\<And>n. n \<in> dom (gScore st) \<Longrightarrow> n \<notin> set (openSet st) \<Longrightarrow> settled G st n"
    and go: "goal \<in> dom (gScore st) \<Longrightarrow> goal \<in> set (openSet st)"
    unfolding inv_closed_def by blast+
  have imp: "improves ?st0 st'" using relax_improves[OF run] .
  then have a: "\<And>n v. gScore st n = Some v \<Longrightarrow> \<exists>v'. gScore st' n = Some v' \<and> v' \<le> v"
    and b: "set (openSet st) - {c} \<subseteq> set (openSet st')"
    and e: "\<And>n. gScore st' n \<noteq> gScore st n \<Longrightarrow> n \<in> set (openSet st')"
    unfolding improves_def by simp_all
  have scored: "\<forall>m \<in> set (neighbors (edges G) c). gScore st' m \<noteq> None"
    using relax_scores[OF run] .
  have 1: "\<forall>n. n \<in> dom (gScore st') \<and> n \<notin> set (openSet st') \<longrightarrow> settled G st' n"
  proof (intro allI impI, elim conjE)
    fix n assume nd: "n \<in> dom (gScore st')" and no: "n \<notin> set (openSet st')"
    have same: "gScore st' n = gScore st n" using e[of n] no by blast
    then have nd0: "n \<in> dom (gScore st)" using nd by (simp add: dom_def)
    have cases: "n = c \<or> n \<notin> set (openSet st)" using b no by blast
    show "settled G st' n"
      unfolding settled_def
    proof (intro allI impI)
      fix m assume j: "joined (edges G) n m"
      show "gScore st' m \<noteq> None"
      proof (cases "n = c")
        case True
        then have "m \<in> set (neighbors (edges G) c)"
          using j by (simp add: set_neighbors)
        then show ?thesis using scored by blast
      next
        case False
        then have "n \<notin> set (openSet st)" using cases by blast
        from cl[OF nd0 this] have "settled G st n" .
        then obtain gm where "gScore st m = Some gm"
          using j unfolding settled_def by blast
        from a[OF this] show ?thesis by auto
      qed
    qed
  qed
  have 2: "goal \<in> dom (gScore st') \<longrightarrow> goal \<in> set (openSet st')"
  proof
    assume gd: "goal \<in> dom (gScore st')"
    show "goal \<in> set (openSet st')"
    proof (cases "gScore st' goal = gScore st goal")
      case True
      then have "goal \<in> dom (gScore st)" using gd by (simp add: dom_def)
      from go[OF this] ng b show ?thesis by blast
    next
      case False
      from e[OF this] show ?thesis .
    qed
  qed
  show ?thesis unfolding inv_closed_def using 1 2 by blast
qed

lemma init_closed: "inv_closed G goal (astar_init start h)"
  by (simp add: inv_closed_def astar_init_def)

lemma closed_reach:
  assumes cl: "\<And>n. n \<in> dom (gScore st) \<Longrightarrow> n \<notin> set (openSet st) \<Longrightarrow> settled G st n"
    and em: "openSet st = []"
  shows "walk (edges G) (a # rest) \<Longrightarrow> gScore st a \<noteq> None
    \<Longrightarrow> gScore st (last (a # rest)) \<noteq> None"
proof (induction rest arbitrary: a)
  case Nil
  then show ?case by simp
next
  case (Cons b rest)
  from Cons.prems(2) obtain ga where ga: "gScore st a = Some ga" by blast
  then have "a \<in> dom (gScore st)" by blast
  from cl[OF this] em have "settled G st a" by simp
  moreover have "joined (edges G) a b" and w: "walk (edges G) (b # rest)"
    using Cons.prems(1) by simp_all
  ultimately have "gScore st b \<noteq> None" using ga unfolding settled_def by blast
  from Cons.IH[OF w this] show ?case by simp
qed

lemma relax_one_ok:
  assumes "endpoints_exist G" and "goal < length (nodes G)" and "joined (edges G) c n"
    and "gScore st c \<noteq> None"
  shows "\<exists>st'. relax_one G goal c n st = Inr st'"
proof -
  from joined_find_edge[OF assms(3)] obtain e where e: "find_edge (edges G) c n = Some e"
    by blast
  from find_edge_mem[OF e] have m: "e \<in> set (edges G)"
    and ends: "(edge_from e = c \<and> edge_to e = n) \<or> (edge_to e = c \<and> edge_from e = n)"
    by blast+
  have "n < length (nodes G)"
    using assms(1) m ends unfolding endpoints_exist_def by blast
  then have "\<exists>h. heuristic_at (nodes G) n goal = Inr h"
    using assms(2) by (simp add: heuristic_at_def node_at_def)
  then show ?thesis
    using e assms(4) unfolding relax_one_def Let_def by (auto split: option.splits)
qed

lemma relax_ok:
  assumes "endpoints_exist G" and "goal < length (nodes G)"
  shows "\<forall>n \<in> set nbs. joined (edges G) c n \<Longrightarrow> gScore st c \<noteq> None
    \<Longrightarrow> \<exists>st'. relax G goal c nbs st = Inr st'"
proof (induction nbs arbitrary: st)
  case Nil
  then show ?case by simp
next
  case (Cons n nbs)
  have "joined (edges G) c n" using Cons.prems(1) by simp
  from relax_one_ok[OF assms this Cons.prems(2)] obtain st1 where
    one: "relax_one G goal c n st = Inr st1" by blast
  have "gScore st1 c \<noteq> None" using relax_one_dom[OF one Cons.prems(2)] .
  moreover have "\<forall>n \<in> set nbs. joined (edges G) c n" using Cons.prems(1) by simp
  ultimately obtain st' where "relax G goal c nbs st1 = Inr st'"
    using Cons.IH by blast
  then show ?case using one by simp
qed

lemma empty_frontier_unreachable:
  assumes st: "inv_struct G start st" and cl: "inv_closed G goal st" and em: "openSet st = []"
  shows "\<not> is_path G start goal q"
proof
  assume p: "is_path G start goal q"
  then obtain rest where q: "q = start # rest" and w: "walk (edges G) (start # rest)"
    and l: "last (start # rest) = goal"
    unfolding is_path_def by (cases q) auto
  have s: "gScore st start \<noteq> None" using st unfolding inv_struct_def by blast
  have c: "\<And>n. n \<in> dom (gScore st) \<Longrightarrow> n \<notin> set (openSet st) \<Longrightarrow> settled G st n"
    using cl unfolding inv_closed_def by blast
  from closed_reach[OF c em w s] l have "goal \<in> dom (gScore st)" by auto
  then have "goal \<in> set (openSet st)" using cl unfolding inv_closed_def by blast
  then show False using em by simp
qed

lemma goal_path:
  assumes st: "inv_struct G start st" and c_open: "c \<in> set (openSet st)"
    and rp: "reconstructPath (cameFrom st) c = Some p"
  shows "is_path G start c p"
proof -
  have c_dom: "gScore st c \<noteq> None" using st c_open unfolding inv_struct_def by blast
  have adj: "\<forall>n p. cameFrom st n = Some p \<longrightarrow> joined (edges G) p n"
    using st unfolding inv_struct_def by blast
  from reconstructPath_shape[OF rp adj]
  have sh: "p \<noteq> []" "last p = c" "cameFrom st (hd p) = None" "walk (edges G) p"
    "hd p = c \<or> (\<exists>n. cameFrom st n = Some (hd p))"
    by blast+
  have "hd p \<in> dom (gScore st)"
    using sh(5) c_dom st unfolding inv_struct_def by blast
  then have "hd p = start"
    using sh(3) st unfolding inv_struct_def by blast
  then show ?thesis using sh unfolding is_path_def by simp
qed

lemma full_post_step:
  assumes IH: "\<And>G goal st r. al G goal st = Some r \<Longrightarrow> full_post start G goal st r"
    and body: "(case openSet st of
        [] \<Rightarrow> Some Unreachable
      | v # vs \<Rightarrow>
          (let current = select_current (fScore st) v vs in
           if current = goal
           then map_option Path (reconstructPath (cameFrom st) current)
           else
             (case relax G goal current (neighbors (edges G) current)
                     (st\<lparr>openSet := set_delete current (openSet st)\<rparr>) of
                Inl err \<Rightarrow> Some (Inl err)
              | Inr st' \<Rightarrow> al G goal st'))) = Some r"
  shows "full_post start G goal st r"
  unfolding full_post_def
proof (intro impI, elim conjE)
  assume ee: "endpoints_exist G" and gv: "goal < length (nodes G)"
    and st: "inv_struct G start st" and cl: "inv_closed G goal st"
  show "search_result G start goal r"
  proof (cases "openSet st")
    case Nil
    then have "r = Unreachable" using body by simp
    then show ?thesis
      using empty_frontier_unreachable[OF st cl Nil] unfolding search_result_def by blast
  next
    case (Cons v vs)
    define c where "c = select_current (fScore st) v vs"
    have c_open: "c \<in> set (openSet st)"
      unfolding c_def Cons by (rule select_current_mem)
    then obtain gc where gc: "gScore st c = Some gc"
      using st unfolding inv_struct_def by blast
    show ?thesis
    proof (cases "c = goal")
      case True
      then have "map_option Path (reconstructPath (cameFrom st) c) = Some r"
        using body Cons c_def by (simp add: Let_def)
      then obtain p where p: "reconstructPath (cameFrom st) c = Some p" "r = Path p"
        by blast
      have ip: "is_path G start goal p" using goal_path[OF st c_open p(1)] True by simp
      then show ?thesis using p(2) unfolding search_result_def by blast
    next
      case False
      let ?st0 = "st\<lparr>openSet := set_delete c (openSet st)\<rparr>"
      have b: "(case relax G goal c (neighbors (edges G) c) ?st0 of
                Inl err \<Rightarrow> Some (Inl err)
              | Inr st' \<Rightarrow> al G goal st') = Some r"
        using body Cons c_def False by (simp add: Let_def)
      have nb: "\<forall>n \<in> set (neighbors (edges G) c). joined (edges G) c n"
        by (simp add: set_neighbors)
      have "gScore ?st0 c \<noteq> None" using gc by simp
      from relax_ok[OF ee gv nb this] obtain st' where
        run: "relax G goal c (neighbors (edges G) c) ?st0 = Inr st'" by blast
      then have "al G goal st' = Some r" using b by simp
      from IH[OF this] have post: "full_post start G goal st' r" .
      have "inv_struct G start st'" using relax_struct[OF run delete_struct[OF st]] .
      moreover have "inv_closed G goal st'" using closed_step[OF cl c_open False run] .
      ultimately show ?thesis using post ee gv unfolding full_post_def by blast
    qed
  qed
qed

lemma astar_loop_full:
  assumes "astar_loop G goal st = Some r"
  shows "full_post start G goal st r"
  by (rule astar_loop.raw_induct[where P = "full_post start", OF _ assms])
    (rule full_post_step)

lemma astar_search_result:
  assumes "endpoints_exist G" and "weights_nonneg G"
    and "start < length (nodes G)" and "goal < length (nodes G)"
  shows "\<exists>r. astar G start goal = Some r \<and> search_result G start goal r"
proof -
  obtain h where h: "heuristic_at (nodes G) start goal = Inr h"
    using assms(3,4) by (simp add: heuristic_at_def node_at_def)
  from astar_terminates[OF assms(2), of start goal] obtain r where
    r: "astar G start goal = Some r" by blast
  then have "astar_loop G goal (astar_init start h) = Some r"
    using h by (simp add: astar_def)
  from astar_loop_full[OF this, of start]
  have "search_result G start goal r"
    unfolding full_post_def
    using assms init_struct[of G start h] init_closed[of G goal start h] by blast
  then show ?thesis using r by blast
qed

text \<open>
  C1, as the code has it. On a graph with non-negative weights whose edges end in nodes of
  the graph, for nodes \<open>start\<close> and \<open>goal\<close> of the graph: the planner returns a path from
  \<open>start\<close> to \<open>goal\<close> along edges of the graph, each walked in either direction, or it
  returns \<open>Unreachable\<close>, and it does so exactly when no such path exists. Nothing is said
  of the cost of the returned path: it need not be a cheapest one.
\<close>

theorem astar_path_or_unreachable:
  assumes "endpoints_exist G" and "weights_nonneg G"
    and "start < length (nodes G)" and "goal < length (nodes G)"
  shows "(\<exists>p. astar G start goal = Some (Path p) \<and> is_path G start goal p)
       \<or> (astar G start goal = Some Unreachable \<and> (\<forall>q. \<not> is_path G start goal q))"
  using astar_search_result[OF assms] unfolding search_result_def by auto

theorem astar_path_or_unreachable_witness:
  "endpoints_exist scenario \<and> weights_nonneg scenario
   \<and> astar scenario 0 2 = Some (Path [0, 1, 2]) \<and> is_path scenario 0 2 [0, 1, 2]
   \<and> endpoints_exist apart \<and> weights_nonneg apart
   \<and> astar apart 0 1 = Some Unreachable \<and> \<not> is_path apart 0 1 [0, 1]"
proof -
  have ee: "endpoints_exist scenario"
    by (simp add: endpoints_exist_def scenario_def mk_edge_def)
  have nn: "weights_nonneg scenario"
    by (simp add: weights_nonneg_def scenario_def mk_edge_def)
  have s: "0 < length (nodes scenario)" and g: "2 < length (nodes scenario)"
    by (simp_all add: scenario_def)
  have run: "astar scenario 0 2 = Some (Path [0, Suc 0, 2])"
    by (rule scenario_run_02)
  from astar_path_or_unreachable [OF ee nn s g] run
  have found: "is_path scenario 0 2 [0, Suc 0, 2]"
    by auto
  have w: "endpoints_exist apart" "weights_nonneg apart"
    "0 < length (nodes apart)" "Suc 0 < length (nodes apart)"
    by (simp_all add: endpoints_exist_def weights_nonneg_def apart_def)
  from astar_path_or_unreachable [OF w] apart_run
  have none: "\<not> is_path apart 0 (Suc 0) [0, Suc 0]"
    by auto
  show ?thesis using ee nn run found w(1,2) apart_run none by simp
qed

section \<open>The empty frontier\<close>

lemma astar_loop_empty: "openSet st = [] \<Longrightarrow> astar_loop G goal st = Some Unreachable"
  by (subst astar_loop.simps) simp

lemma apart_no_path: "\<not> is_path apart 0 1 q"
proof (cases q)
  case Nil
  then show ?thesis by (simp add: is_path_def)
next
  case (Cons a rest)
  show ?thesis
  proof (cases rest)
    case Nil
    then show ?thesis using Cons by (auto simp: is_path_def)
  next
    case (Cons b more)
    then show ?thesis using \<open>q = a # rest\<close> by (simp add: is_path_def joined_def apart_def)
  qed
qed

text \<open>
  C5: when the frontier is empty and the goal has not been reached, the search loop
  returns \<open>null\<close>, the \<open>Unreachable\<close> outcome, as an ordinary value, and nothing is thrown.
  So for nodes \<open>start\<close> and \<open>goal\<close> of a graph with non-negative weights whose edges end in
  nodes of the graph, with no path between them, the planner returns \<open>Unreachable\<close>; the
  caller \<open>calculatePath\<close> branches on it and shows the empty path.
\<close>

theorem astar_unreachable_is_a_value:
  "(openSet st = [] \<longrightarrow> astar_loop G goal st = Some Unreachable)
   \<and> (endpoints_exist G \<and> weights_nonneg G
        \<and> start < length (nodes G) \<and> goal < length (nodes G)
        \<and> (\<forall>q. \<not> is_path G start goal q) \<longrightarrow>
      astar G start goal = Some Unreachable
      \<and> calculatePath_single G start goal = Some (Inr []))"
proof (intro conjI impI)
  assume "openSet st = []"
  then show "astar_loop G goal st = Some Unreachable" by (rule astar_loop_empty)
next
  assume h: "endpoints_exist G \<and> weights_nonneg G
        \<and> start < length (nodes G) \<and> goal < length (nodes G)
        \<and> (\<forall>q. \<not> is_path G start goal q)"
  then obtain r where r: "astar G start goal = Some r" "search_result G start goal r"
    using astar_search_result[of G start goal] by blast
  then have "r = Unreachable" using h unfolding search_result_def by blast
  then show "astar G start goal = Some Unreachable"
    and "calculatePath_single G start goal = Some (Inr [])"
    using r(1) by (simp_all add: calculatePath_single_def)
qed

theorem astar_unreachable_is_a_value_witness:
  "openSet ((astar_init 0 3)\<lparr>openSet := set_delete 0 [0]\<rparr>) = []
   \<and> astar_loop apart 1 ((astar_init 0 3)\<lparr>openSet := set_delete 0 [0]\<rparr>) = Some Unreachable
   \<and> endpoints_exist apart \<and> weights_nonneg apart
   \<and> astar apart 0 1 = Some Unreachable
   \<and> calculatePath_single apart 0 1 = Some (Inr [])"
proof -
  have e: "openSet ((astar_init 0 3)\<lparr>openSet := set_delete 0 [0]\<rparr>) = []"
    by (simp add: set_delete_def)
  have w: "endpoints_exist apart" "weights_nonneg apart"
    "0 < length (nodes apart)" "1 < length (nodes apart)"
    by (simp_all add: endpoints_exist_def weights_nonneg_def apart_def)
  note inst = astar_unreachable_is_a_value
    [of "(astar_init 0 3)\<lparr>openSet := set_delete 0 [0]\<rparr>" apart 1 0]
  from inst e have "astar_loop apart 1 ((astar_init 0 3)\<lparr>openSet := set_delete 0 [0]\<rparr>) = Some Unreachable"
    by blast
  moreover from inst w apart_no_path
  have "astar apart 0 1 = Some Unreachable \<and> calculatePath_single apart 0 1 = Some (Inr [])"
    by blast
  ultimately show ?thesis using e w by blast
qed

section \<open>The multi-goal planner returns\<close>


lemma leg_or_unreachable:
  assumes "endpoints_exist G" and "weights_nonneg G"
    and "c < length (nodes G)" and "g < length (nodes G)"
  shows "(\<exists>p d. astar G c g = Some (Path p) \<and> calculatePathDistance (nodes G) p = Inr d)
       \<or> astar G c g = Some Unreachable"
proof -
  from astar_search_result[OF assms] obtain r where
    r: "astar G c g = Some r" "search_result G c g r" by blast
  show ?thesis
  proof (cases "r = Unreachable")
    case True
    then show ?thesis using r(1) by simp
  next
    case False
    then obtain p where p: "r = Path p" "is_path G c g p"
      using r(2) unfolding search_result_def by blast
    have "walk (edges G) p" using p(2) unfolding is_path_def by blast
    from walk_distance_total[OF assms(1) this, of 0] obtain d where
      "calculatePathDistance (nodes G) p = Inr d"
      unfolding calculatePathDistance_def by blast
    then show ?thesis using r(1) p(1) by blast
  qed
qed

lemma best_goal_loop_total:
  assumes "endpoints_exist G" and "weights_nonneg G" and "c < length (nodes G)"
  shows "\<forall>g \<in> set rem. g < length (nodes G)
    \<Longrightarrow> \<exists>res. best_goal_loop G c rem best = Some (Inr res)"
proof (induction rem arbitrary: best)
  case Nil
  show ?case by simp
next
  case (Cons g rest)
  have gv: "g < length (nodes G)" and rv: "\<forall>g \<in> set rest. g < length (nodes G)"
    using Cons.prems by simp_all
  from leg_or_unreachable[OF assms gv] show ?case
  proof
    assume "\<exists>p d. astar G c g = Some (Path p) \<and> calculatePathDistance (nodes G) p = Inr d"
    then obtain p d where a: "astar G c g = Some (Path p)"
      and d: "calculatePathDistance (nodes G) p = Inr d" by blast
    have "best_goal_loop G c (g # rest) best = best_goal_loop G c rest (Some (g, p, d))
        \<or> best_goal_loop G c (g # rest) best = best_goal_loop G c rest best"
      using a d by simp
    then show ?thesis using Cons.IH[OF rv] by metis
  next
    assume "astar G c g = Some Unreachable"
    then have "best_goal_loop G c (g # rest) best = best_goal_loop G c rest best" by simp
    then show ?thesis using Cons.IH[OF rv] by simp
  qed
qed

lemma multi_loop_total:
  assumes "endpoints_exist G" and "weights_nonneg G"
  shows "current_node st < length (nodes G)
    \<Longrightarrow> \<forall>g \<in> set (remaining st). g < length (nodes G)
    \<Longrightarrow> \<exists>st'. multi_loop G st = Some (Inr st')"
proof (induction "length (remaining st)" arbitrary: st rule: less_induct)
  case less
  show ?case
  proof (cases "remaining st = []")
    case True
    then show ?thesis by (subst multi_loop.simps) simp
  next
    case False
    from best_goal_loop_total[OF assms less.prems(1) less.prems(2)] obtain res where
      res: "best_goal_loop G (current_node st) (remaining st) None = Some (Inr res)" by blast
    show ?thesis
    proof (cases res)
      case None
      then show ?thesis using res False by (subst multi_loop.simps) simp
    next
      case (Some t)
      obtain b p d where t: "t = (b, p, d)" by (cases t) auto
      have best: "best_goal_loop G (current_node st) (remaining st) None
          = Some (Inr (Some (b, p, d)))"
        using res Some t by simp
      show ?thesis
      proof (cases "b = 0")
        case True
        then show ?thesis using best False by (subst multi_loop.simps) simp
      next
        case nz: False
        let ?st1 = "\<lparr>current_node = b, remaining = set_delete b (remaining st),
                     fullPath = fullPath st @ tl p\<rparr>"
        from best_goal_loop_chosen[OF best] obtain k where k: "remaining st ! k = b"
          "chosen G (current_node st) (remaining st) k d" by blast
        have kl: "k < length (remaining st)" using k(2) by (simp add: chosen_def)
        have bin: "b \<in> set (remaining st)" using nth_mem[OF kl] k(1) by simp
        have shorter: "length (remaining ?st1) < length (remaining st)"
          using length_set_delete[OF bin] by simp
        have cur: "current_node ?st1 < length (nodes G)" using less.prems(2) bin by simp
        have rem: "\<forall>g \<in> set (remaining ?st1). g < length (nodes G)"
          using less.prems(2) by simp
        from less.hyps[OF shorter cur rem] obtain st' where
          "multi_loop G ?st1 = Some (Inr st')" by blast
        then show ?thesis using multi_loop_step[OF False best nz] by simp
      qed
    qed
  qed
qed




lemma calculatePath_multi_total:
  assumes "endpoints_exist G" and "weights_nonneg G" and "start < length (nodes G)"
    and "\<forall>g \<in> set goals. g < length (nodes G)"
  shows "\<exists>st. multi_loop G (multi_init start goals) = Some (Inr st)
           \<and> calculatePath_multi G start goals = Some (Inr (fullPath st))"
proof -
  have "current_node (multi_init start goals) < length (nodes G)"
    using assms(3) by (simp add: multi_init_def)
  moreover have "\<forall>g \<in> set (remaining (multi_init start goals)). g < length (nodes G)"
    using assms(4) by (simp add: multi_init_def set_new_Set)
  ultimately obtain st where "multi_loop G (multi_init start goals) = Some (Inr st)"
    using multi_loop_total[OF assms(1,2)] by blast
  then show ?thesis by (simp add: calculatePath_multi_def)
qed



text \<open>
  C3, as the code has it, on a graph with non-negative weights whose edges end in nodes of
  the graph, for a start and goals that are nodes of the graph: \<open>calculatePath\<close> in
  multi-goal mode returns, and its value is the accumulated path alone, which begins with
  the start. The goals that were never reached are left in the loop's \<open>remaining\<close> set
  when it ends, and that set is not part of the value: every goal is on the returned path
  or in the discarded set.
\<close>

theorem multi_goal_returns_path_only:
  assumes "endpoints_exist G" and "weights_nonneg G" and "start < length (nodes G)"
    and "\<forall>g \<in> set goals. g < length (nodes G)"
  shows "\<exists>st. multi_loop G (multi_init start goals) = Some (Inr st)
    \<and> calculatePath_multi G start goals = Some (Inr (fullPath st))
    \<and> prefix [start] (fullPath st)
    \<and> set goals \<subseteq> set (remaining st) \<union> set (fullPath st)
    \<and> set (remaining st) \<subseteq> set goals"
proof -
  from calculatePath_multi_total[OF assms] obtain st where
    st: "multi_loop G (multi_init start goals) = Some (Inr st)"
    "calculatePath_multi G start goals = Some (Inr (fullPath st))" by blast
  from multi_loop_post[OF st(1), of goals] multi_inv_init[of goals start]
  have "prefix (fullPath (multi_init start goals)) (fullPath st)" and "multi_inv goals st"
    unfolding multi_post_def by blast+
  then have "prefix [start] (fullPath st)
    \<and> set goals \<subseteq> set (remaining st) \<union> set (fullPath st)
    \<and> set (remaining st) \<subseteq> set goals"
    by (simp add: multi_inv_def multi_init_def)
  then show ?thesis using st by blast
qed

theorem multi_goal_returns_path_only_witness:
  "endpoints_exist apart \<and> weights_nonneg apart
   \<and> multi_loop apart (multi_init 0 [1]) =
     Some (Inr \<lparr>current_node = 0, remaining = [1], fullPath = [0]\<rparr>)
   \<and> calculatePath_multi apart 0 [1] = Some (Inr [0])
   \<and> prefix [0] [0::nat]
   \<and> set [1] \<subseteq> set [1] \<union> set [0::nat]"
proof -
  have w: "endpoints_exist apart" "weights_nonneg apart" "0 < length (nodes apart)"
    "\<forall>g \<in> set [Suc 0]. g < length (nodes apart)"
    by (simp_all add: endpoints_exist_def weights_nonneg_def apart_def)
  have run: "multi_loop apart (multi_init 0 [Suc 0]) =
     Some (Inr \<lparr>current_node = 0, remaining = [Suc 0], fullPath = [0]\<rparr>)"
    by (simp add: multi_simps apart_run set_add_def)
  from multi_goal_returns_path_only [OF w] obtain st where
    st: "multi_loop apart (multi_init 0 [Suc 0]) = Some (Inr st)"
    "calculatePath_multi apart 0 [Suc 0] = Some (Inr (fullPath st))"
    "prefix [0] (fullPath st)"
    "set [Suc 0] \<subseteq> set (remaining st) \<union> set (fullPath st)"
    by blast
  have "st = \<lparr>current_node = 0, remaining = [Suc 0], fullPath = [0]\<rparr>"
    using st(1) run by simp
  then show ?thesis using st w(1,2) run by simp
qed

section \<open>The distance reported for a plan\<close>







section \<open>What the planner reads of an edge\<close>












end
